theory Spec2Isabelle
  imports Main "HOL-Library.Word" "HOL-Library.Multiset"
begin

text \<open>
  The database service of the node (\<open>DB\<close>: version guard, prefix allocator, block applier,
  tip operations, tip loading) and the value encoding of the transaction service
  (\<open>TransactionService._encodeTransactionValue\<close>, \<open>_decodeTransactionValue\<close>), embedded as
  functions on an explicit state. The levelup store, the upstream node and the handlers of the
  other services are the environment: the store is a map whose operations may fail, the
  upstream node and the handlers are parameters. The bitcoin library that serialises and
  parses transactions is outside the repository and is a parameter as well.
\<close>

section \<open>Buffers and the numeric accessors of the platform\<close>

text \<open>
  A Buffer is a list of bytes. A JavaScript integer is an \<open>int\<close>; a JavaScript number that is
  only ever moved through \<open>writeDoubleBE\<close>/\<open>readDoubleBE\<close> is represented by its IEEE-754
  binary64 bit pattern, a 64-bit word (no arithmetic is done on it in the code modelled here).
\<close>

type_synonym byte = "8 word"
type_synonym buffer = "byte list"
type_synonym double = "64 word"
type_synonym key = string

datatype error =
    NotFoundError            \<comment> \<open>levelup's NotFoundError (\<open>err.notFound\<close>)\<close>
  | IOError string           \<comment> \<open>any other error handed back by the store\<close>
  | OutOfBounds              \<comment> \<open>a Buffer read or write outside its range (thrown by the platform)\<close>
  | InvalidArgument string   \<comment> \<open>thrown by \<open>$.checkArgument\<close>\<close>
  | Error string             \<comment> \<open>\<open>new Error(message)\<close>\<close>

text \<open>
  How an asynchronous function ends: its callback is called with a result (\<open>Done\<close>), its
  callback is called with an error (\<open>Failed\<close>), an exception is thrown before the callback is
  reached (\<open>Thrown\<close>), or it returns without ever calling the callback (\<open>Pending\<close>).
\<close>

datatype 'a completion = Done 'a | Failed error | Thrown error | Pending

text \<open>Big-endian bytes of a number, and the number of big-endian bytes.\<close>

fun be_bytes :: "nat \<Rightarrow> nat \<Rightarrow> buffer" where
  "be_bytes 0 v = []"
| "be_bytes (Suc n) v = be_bytes n (v div 256) @ [of_nat v]"

definition be_value :: "buffer \<Rightarrow> nat" where
  "be_value bs = foldl (\<lambda>acc b. acc * 256 + unat b) 0 bs"

text \<open>
  \<open>buf.writeUInt16BE(v)\<close> and \<open>buf.writeUInt32BE(v)\<close> on a fresh buffer of 2 (4) bytes, without
  \<open>noAssert\<close>: the platform throws when the number is outside the unsigned range.
\<close>

definition writeUInt16BE :: "int \<Rightarrow> error + buffer" where
  "writeUInt16BE v = (if v < 0 \<or> 65535 < v then Inl OutOfBounds else Inr (be_bytes 2 (nat v)))"

definition writeUInt32BE :: "int \<Rightarrow> error + buffer" where
  "writeUInt32BE v = (if v < 0 \<or> 4294967295 < v then Inl OutOfBounds else Inr (be_bytes 4 (nat v)))"

definition writeDoubleBE :: "double \<Rightarrow> buffer" where
  "writeDoubleBE d = be_bytes 8 (unat d)"

text \<open>\<open>buf.readUInt16BE(offset)\<close> and its siblings throw when the read leaves the buffer.\<close>

definition readUInt16BE :: "buffer \<Rightarrow> nat \<Rightarrow> error + int" where
  "readUInt16BE buf offset =
     (if offset + 2 \<le> length buf then Inr (int (be_value (take 2 (drop offset buf))))
      else Inl OutOfBounds)"

definition readUInt32BE :: "buffer \<Rightarrow> nat \<Rightarrow> error + int" where
  "readUInt32BE buf offset =
     (if offset + 4 \<le> length buf then Inr (int (be_value (take 4 (drop offset buf))))
      else Inl OutOfBounds)"

definition readDoubleBE :: "buffer \<Rightarrow> nat \<Rightarrow> error + double" where
  "readDoubleBE buf offset =
     (if offset + 8 \<le> length buf then Inr (of_nat (be_value (take 8 (drop offset buf))))
      else Inl OutOfBounds)"

text \<open>
  \<open>buf.toString('hex')\<close> writes two lower-case digits for each byte. \<open>new Buffer(s, 'hex')\<close>
  reads two digits for each byte, in either case, and stops at the first pair that is not made
  of two hexadecimal digits (a last single character is left out): it hands back the bytes read
  so far and does not throw.
\<close>

definition hex_digit :: "nat \<Rightarrow> char" where
  "hex_digit n = ''0123456789abcdef'' ! n"

definition toString_hex :: "buffer \<Rightarrow> string" where
  "toString_hex buf = concat (map (\<lambda>b. [hex_digit (unat b div 16), hex_digit (unat b mod 16)]) buf)"

definition hex_value :: "char \<Rightarrow> nat option" where
  "hex_value c =
     (let n = (of_char c :: nat) in
      if 48 \<le> n \<and> n \<le> 57 then Some (n - 48)
      else if 97 \<le> n \<and> n \<le> 102 then Some (n - 87)
      else if 65 \<le> n \<and> n \<le> 70 then Some (n - 55)
      else None)"

fun Buffer_hex :: "string \<Rightarrow> buffer" where
  "Buffer_hex (c # d # cs) =
     (case (hex_value c, hex_value d) of
        (Some h, Some l) \<Rightarrow> of_nat (16 * h + l) # Buffer_hex cs
      | _ \<Rightarrow> [])"
| "Buffer_hex cs = []"

text \<open>
  A number in a string concatenation: its decimal digits (the first ten characters of
  \<open>hex_digit\<close> are the decimal digits).
\<close>

fun show_nat :: "nat \<Rightarrow> string" where
  "show_nat n = (if n < 10 then [hex_digit n] else show_nat (n div 10) @ [hex_digit (n mod 10)])"

section \<open>Blocks, batch operations and the store\<close>

text \<open>
  A block as the database service reads it: \<open>block.hash\<close> (a hexadecimal string),
  the decoration \<open>block.__height\<close> and \<open>block.header.prevHash\<close> (a Buffer).
\<close>

record block =
  hash :: string
  height :: int
  prevHash :: buffer

datatype op_type = Put | Del

record batch_op =
  op_type :: op_type
  op_key :: key
  op_value :: buffer

text \<open>
  The state of the database service. \<open>store\<close> is the content of the levelup store.
  Whether the store's next operation fails is the environment's choice: \<open>faults n\<close> is the
  error message of the \<open>n\<close>-th store operation, if it fails, and \<open>ops_done\<close> counts the operations.
  \<open>batches\<close> logs every call of \<open>store.batch\<close>. The upstream node answers the \<open>n\<close>-th
  \<open>getBlock\<close> with \<open>bitcoind n\<close>.
\<close>

record db =
  store :: "key \<rightharpoonup> buffer"
  faults :: "nat \<Rightarrow> string option"
  ops_done :: nat
  batches :: "batch_op list list"
  dataPath :: string
  genesis :: block
  tip :: "block option"
  concurrentTip :: "block option"
  bitcoind :: "nat \<Rightarrow> string \<Rightarrow> error + block"
  bitcoind_calls :: nat
  emitted :: "(string \<times> block) list"

definition dbPrefix :: string where
  "dbPrefix = [CHR 0x00, CHR 0x00]"

definition version :: int where
  "version = 2"

definition store_get :: "key \<Rightarrow> db \<Rightarrow> (error + buffer) \<times> db" where
  "store_get k s =
     (let s' = s\<lparr>ops_done := ops_done s + 1\<rparr> in
      case faults s (ops_done s) of
        Some msg \<Rightarrow> (Inl (IOError msg), s')
      | None \<Rightarrow> (case store s k of None \<Rightarrow> (Inl NotFoundError, s') | Some v \<Rightarrow> (Inr v, s')))"

definition store_put :: "key \<Rightarrow> buffer \<Rightarrow> db \<Rightarrow> error option \<times> db" where
  "store_put k v s =
     (let s' = s\<lparr>ops_done := ops_done s + 1\<rparr> in
      case faults s (ops_done s) of
        Some msg \<Rightarrow> (Some (IOError msg), s')
      | None \<Rightarrow> (None, s'\<lparr>store := (store s)(k \<mapsto> v)\<rparr>))"

fun apply_op :: "(key \<rightharpoonup> buffer) \<Rightarrow> batch_op \<Rightarrow> (key \<rightharpoonup> buffer)" where
  "apply_op m operation =
     (case op_type operation of
        Put \<Rightarrow> m(op_key operation \<mapsto> op_value operation)
      | Del \<Rightarrow> m(op_key operation := None))"

text \<open>\<open>store.batch\<close> is atomic: all operations are applied, in order, or none is.\<close>

definition store_batch :: "batch_op list \<Rightarrow> db \<Rightarrow> error option \<times> db" where
  "store_batch operations s =
     (let s' = s\<lparr>ops_done := ops_done s + 1, batches := batches s @ [operations]\<rparr> in
      case faults s (ops_done s) of
        Some msg \<Rightarrow> (Some (IOError msg), s')
      | None \<Rightarrow> (None, s'\<lparr>store := foldl apply_op (store s) operations\<rparr>))"

section \<open>The prefix allocator\<close>

text \<open>The keys \<open>dbPrefix + 'prefix-' + service\<close> and \<open>dbPrefix + 'nextUnused'\<close>.\<close>

definition prefix_key :: "string \<Rightarrow> key" where
  "prefix_key service = dbPrefix @ ''prefix-'' @ service"

definition nextUnused_key :: key where
  "nextUnused_key = dbPrefix @ ''nextUnused''"

text \<open>The four steps of the waterfall in \<open>DB.prototype.getPrefix\<close>.\<close>

definition getUnused :: "db \<Rightarrow> (error + buffer) \<times> db" where
  "getUnused s =
     (case store_get nextUnused_key s of
        (Inl err, s') \<Rightarrow>
          if err = NotFoundError then (Inr [0x00, 0x01], s') else (Inl err, s')
      | (Inr buf, s') \<Rightarrow> (Inr buf, s'))"

definition putPrefix :: "string \<Rightarrow> buffer \<Rightarrow> db \<Rightarrow> (error + buffer) \<times> db" where
  "putPrefix service buf s =
     (case store_put (prefix_key service) buf s of
        (Some err, s') \<Rightarrow> (Inl err, s')
      | (None, s') \<Rightarrow> (Inr buf, s'))"

definition putUnused :: "buffer \<Rightarrow> db \<Rightarrow> buffer completion \<times> db" where
  "putUnused buf s =
     (case readUInt16BE buf 0 of
        Inl e \<Rightarrow> (Thrown e, s)
      | Inr prefix \<Rightarrow>
          (case writeUInt16BE (prefix + 1) of
             Inl e \<Rightarrow> (Thrown e, s)
           | Inr nextUnused \<Rightarrow>
               (case store_put nextUnused_key nextUnused s of
                  (Some err, s') \<Rightarrow> (Failed err, s')
                | (None, s') \<Rightarrow> (Done buf, s'))))"

definition getPrefix :: "string \<Rightarrow> db \<Rightarrow> buffer completion \<times> db" where
  "getPrefix service s =
     (case store_get (prefix_key service) s of
        (Inr buf, s1) \<Rightarrow> (Done buf, s1)
      | (Inl err, s1) \<Rightarrow>
          if err \<noteq> NotFoundError then (Failed err, s1)
          else
            (case getUnused s1 of
               (Inl err, s2) \<Rightarrow> (Failed err, s2)
             | (Inr buf, s2) \<Rightarrow>
                 (case putPrefix service buf s2 of
                    (Inl err, s3) \<Rightarrow> (Failed err, s3)
                  | (Inr buf, s3) \<Rightarrow> putUnused buf s3)))"

section \<open>The version guard\<close>

definition helpUrl :: string where
  "helpUrl = ''https://github.com/bitpay/bitcore-node/blob/master/docs/services/db.md#how-to-reindex''"

definition version_message :: "int \<Rightarrow> string \<Rightarrow> string" where
  "version_message stored path =
     ''The version of the database '' @ [CHR 0x22] @ show_nat (nat stored) @ [CHR 0x22] @
     '' does not match the expected version '' @ [CHR 0x22] @ show_nat (nat version) @ [CHR 0x22] @
     ''. A recreation of '' @ [CHR 0x22] @ path @ [CHR 0x22] @
     '' (can take several hours) is required or to switch versions of software to match. Please see '' @
     helpUrl @ '' for more information.''"

definition compareVersion :: "int \<Rightarrow> db \<Rightarrow> unit completion \<times> db" where
  "compareVersion stored s =
     (if version \<noteq> stored then (Failed (Error (version_message stored (dataPath s))), s)
      else (Done (), s))"

text \<open>\<open>DB.prototype._checkVersion\<close>\<close>

definition checkVersion :: "db \<Rightarrow> unit completion \<times> db" where
  "checkVersion s =
     (case store_get (dbPrefix @ ''tip'') s of
        (Inl err, s1) \<Rightarrow>
          if err = NotFoundError then (Done (), s1) else (Failed err, s1)
      | (Inr tipData, s1) \<Rightarrow>
          (case store_get (dbPrefix @ ''version'') s1 of
             (Inl err, s2) \<Rightarrow>
               if err = NotFoundError then compareVersion 1 s2 else (Failed err, s2)
           | (Inr buf, s2) \<Rightarrow>
               (case readUInt32BE buf 0 of
                  Inl e \<Rightarrow> (Thrown e, s2)
                | Inr stored \<Rightarrow> compareVersion stored s2)))"

text \<open>\<open>DB.prototype._setVersion\<close>\<close>

definition setVersion :: "db \<Rightarrow> unit completion \<times> db" where
  "setVersion s =
     (case writeUInt32BE version of
        Inl e \<Rightarrow> (Thrown e, s)
      | Inr versionBuffer \<Rightarrow>
          (case store_put (dbPrefix @ ''version'') versionBuffer s of
             (Some err, s') \<Rightarrow> (Failed err, s')
           | (None, s') \<Rightarrow> (Done (), s')))"

section \<open>The block applier\<close>

definition getTipOperation :: "block \<Rightarrow> bool \<Rightarrow> error + batch_op" where
  "getTipOperation blk add =
     (if add then
        (case writeUInt32BE (height blk) of
           Inl e \<Rightarrow> Inl e
         | Inr heightBuffer \<Rightarrow>
             Inr \<lparr>op_type = Put, op_key = dbPrefix @ ''tip'',
                  op_value = Buffer_hex (hash blk) @ heightBuffer\<rparr>)
      else
        (case writeUInt32BE (height blk - 1) of
           Inl e \<Rightarrow> Inl e
         | Inr heightBuffer \<Rightarrow>
             Inr \<lparr>op_type = Put, op_key = dbPrefix @ ''tip'',
                  op_value = rev (prevHash blk) @ heightBuffer\<rparr>))"

definition getConcurrentTipOperation :: "block \<Rightarrow> bool \<Rightarrow> error + batch_op" where
  "getConcurrentTipOperation blk add =
     (if add then
        (case writeUInt32BE (height blk) of
           Inl e \<Rightarrow> Inl e
         | Inr heightBuffer \<Rightarrow>
             Inr \<lparr>op_type = Put, op_key = dbPrefix @ ''concurrentTip'',
                  op_value = Buffer_hex (hash blk) @ heightBuffer\<rparr>)
      else
        (case writeUInt32BE (height blk - 1) of
           Inl e \<Rightarrow> Inl e
         | Inr heightBuffer \<Rightarrow>
             Inr \<lparr>op_type = Put, op_key = dbPrefix @ ''concurrentTip'',
                  op_value = rev (prevHash blk) @ heightBuffer\<rparr>))"

text \<open>
  A handler is plugin code. It is given the block and the direction and may read the store;
  what it hands to its callback is an error, an array of operations, nothing (a falsy value),
  or something that is not an array. Every handler is taken to call its callback once.
  A handler is called at most once in one apply, so what it hands back there is one value,
  whatever else (the state of its service, the handlers that ran before it) it depends on.
  A service's handler property is missing, is something that is not a function, or is a function.
\<close>

datatype handler_result =
    HandlerErr error
  | HandlerOps "batch_op list"
  | HandlerNone
  | HandlerNonArray

type_synonym handler = "(key \<rightharpoonup> buffer) \<Rightarrow> block \<Rightarrow> bool \<Rightarrow> handler_result"

datatype slot = Missing | NotFunction | Function handler

record service =
  svc_name :: string
  concurrentBlockHandler :: slot
  blockHandler :: slot

text \<open>
  The iteration shared by \<open>getConcurrentBlockOperations\<close> and \<open>getSerialBlockOperations\<close>:
  the services are visited in the order in which their handlers call back; the operations are
  concatenated; the first error ends the iteration.
\<close>

fun collect_operations ::
  "(service \<Rightarrow> slot) \<Rightarrow> string \<Rightarrow> service list \<Rightarrow> (key \<rightharpoonup> buffer) \<Rightarrow> block \<Rightarrow> bool \<Rightarrow>
   batch_op list \<Rightarrow> batch_op list completion" where
  "collect_operations sel what [] st blk add operations = Done operations"
| "collect_operations sel what (m # rest) st blk add operations =
     (case sel m of
        Missing \<Rightarrow> collect_operations sel what rest st blk add operations
      | NotFunction \<Rightarrow> Thrown (InvalidArgument (what @ '' must be a function''))
      | Function h \<Rightarrow>
          (case h st blk add of
             HandlerErr err \<Rightarrow> Failed err
           | HandlerNone \<Rightarrow> collect_operations sel what rest st blk add operations
           | HandlerNonArray \<Rightarrow>
               Thrown (InvalidArgument (what @ '' for '' @ svc_name m @ '' returned non-array''))
           | HandlerOps ops \<Rightarrow> collect_operations sel what rest st blk add (operations @ ops)))"

text \<open>
  \<open>async.each\<close> starts every concurrent handler at once, so their callbacks may fire in any
  order: \<open>finished\<close> lists the services of the node in the order in which they do.
\<close>

definition getConcurrentBlockOperations ::
  "service list \<Rightarrow> (key \<rightharpoonup> buffer) \<Rightarrow> block \<Rightarrow> bool \<Rightarrow> batch_op list completion" where
  "getConcurrentBlockOperations finished st blk add =
     collect_operations concurrentBlockHandler ''concurrentBlockHandler'' finished st blk add []"

text \<open>\<open>async.eachSeries\<close> runs the serial handlers one after the other, in the order of the services.\<close>

definition getSerialBlockOperations ::
  "service list \<Rightarrow> (key \<rightharpoonup> buffer) \<Rightarrow> block \<Rightarrow> bool \<Rightarrow> batch_op list completion" where
  "getSerialBlockOperations services st blk add =
     collect_operations blockHandler ''blockHandler'' services st blk add []"

text \<open>
  \<open>connectBlock\<close> and \<open>disconnectBlock\<close> have the same body, with \<open>true\<close> and \<open>false\<close>
  as the direction.
\<close>

definition applyBlock ::
  "bool \<Rightarrow> service list \<Rightarrow> service list \<Rightarrow> block \<Rightarrow> db \<Rightarrow> unit completion \<times> db" where
  "applyBlock add services finished blk s =
     (case getConcurrentBlockOperations finished (store s) blk add of
        Failed err \<Rightarrow> (Failed err, s)
      | Thrown e \<Rightarrow> (Thrown e, s)
      | Pending \<Rightarrow> (Pending, s)
      | Done ops \<Rightarrow>
          (case getSerialBlockOperations services (store s) blk add of
             Failed err \<Rightarrow> (Failed err, s)
           | Thrown e \<Rightarrow> (Thrown e, s)
           | Pending \<Rightarrow> (Pending, s)
           | Done ops' \<Rightarrow>
               (case getTipOperation blk add of
                  Inl e \<Rightarrow> (Thrown e, s)
                | Inr tipOp \<Rightarrow>
                    (case getConcurrentTipOperation blk add of
                       Inl e \<Rightarrow> (Thrown e, s)
                     | Inr concurrentTipOp \<Rightarrow>
                         (case store_batch ((ops @ ops') @ [tipOp, concurrentTipOp]) s of
                            (Some err, s') \<Rightarrow> (Failed err, s')
                          | (None, s') \<Rightarrow> (Done (), s'))))))"

definition connectBlock ::
  "service list \<Rightarrow> service list \<Rightarrow> block \<Rightarrow> db \<Rightarrow> unit completion \<times> db" where
  "connectBlock = applyBlock True"

definition disconnectBlock ::
  "service list \<Rightarrow> service list \<Rightarrow> block \<Rightarrow> db \<Rightarrow> unit completion \<times> db" where
  "disconnectBlock = applyBlock False"

section \<open>Loading the tips and starting\<close>

definition getBlock :: "string \<Rightarrow> db \<Rightarrow> (error + block) \<times> db" where
  "getBlock h s = (bitcoind s (bitcoind_calls s) h, s\<lparr>bitcoind_calls := bitcoind_calls s + 1\<rparr>)"

text \<open>
  The two reads of \<open>loadTip\<close> and \<open>loadConcurrentTip\<close> on the stored tip record:
  \<open>tipData.slice(0, 32).toString('hex')\<close> and \<open>tipData.readUInt32BE(32)\<close>.
\<close>

definition tipData_hash :: "buffer \<Rightarrow> string" where
  "tipData_hash tipData = toString_hex (take 32 tipData)"

definition tipData_height :: "buffer \<Rightarrow> error + int" where
  "tipData_height tipData = readUInt32BE tipData 32"

text \<open>\<open>async.retry({times: 3, ...}, task, callback)\<close>: at most three attempts, the last error wins.\<close>

definition retry3 :: "(db \<Rightarrow> (error + 'a) \<times> db) \<Rightarrow> db \<Rightarrow> (error + 'a) \<times> db" where
  "retry3 task s =
     (case task s of
        (Inr r, s1) \<Rightarrow> (Inr r, s1)
      | (Inl _, s1) \<Rightarrow>
          (case task s1 of
             (Inr r, s2) \<Rightarrow> (Inr r, s2)
           | (Inl _, s2) \<Rightarrow> task s2))"

definition loadTip :: "service list \<Rightarrow> service list \<Rightarrow> db \<Rightarrow> unit completion \<times> db" where
  "loadTip services finished s =
     (case store_get (dbPrefix @ ''tip'') s of
        (Inl err, s1) \<Rightarrow>
          if err = NotFoundError then
            (let g = (genesis s1)\<lparr>height := 0\<rparr>;
                 s2 = s1\<lparr>genesis := g, tip := Some g\<rparr>
             in case connectBlock services finished g s2 of
                  (Done _, s3) \<Rightarrow> (Done (), s3\<lparr>emitted := emitted s3 @ [(''addblock'', genesis s3)]\<rparr>)
                | (Failed err', s3) \<Rightarrow> (Failed err', s3)
                | (Thrown e, s3) \<Rightarrow> (Thrown e, s3)
                | (Pending, s3) \<Rightarrow> (Pending, s3))
          else (Failed err, s1)
      | (Inr tipData, s1) \<Rightarrow>
          (let h = tipData_hash tipData in
           case tipData_height tipData of
             Inl e \<Rightarrow> (Thrown e, s1)
           | Inr n \<Rightarrow>
               (case retry3 (getBlock h) s1 of
                  (Inl err, s2) \<Rightarrow> (Failed err, s2)
                | (Inr t, s2) \<Rightarrow> (Done (), s2\<lparr>tip := Some (t\<lparr>height := n\<rparr>)\<rparr>))))"

definition loadConcurrentTip :: "db \<Rightarrow> unit completion \<times> db" where
  "loadConcurrentTip s =
     (case store_get (dbPrefix @ ''concurrentTip'') s of
        (Inl err, s1) \<Rightarrow>
          if err = NotFoundError then
            (let g = (genesis s1)\<lparr>height := 0\<rparr>
             in (Pending, s1\<lparr>genesis := g, concurrentTip := Some g\<rparr>))
          else (Failed err, s1)
      | (Inr tipData, s1) \<Rightarrow>
          (let h = tipData_hash tipData in
           case tipData_height tipData of
             Inl e \<Rightarrow> (Thrown e, s1)
           | Inr n \<Rightarrow>
               (case retry3 (getBlock h) s1 of
                  (Inl err, s2) \<Rightarrow> (Failed err, s2)
                | (Inr t, s2) \<Rightarrow> (Done (), s2\<lparr>concurrentTip := Some (t\<lparr>height := n\<rparr>)\<rparr>))))"

text \<open>The part of \<open>DB.prototype.start\<close> that works on the store.\<close>

definition start :: "service list \<Rightarrow> service list \<Rightarrow> db \<Rightarrow> unit completion \<times> db" where
  "start services finished s =
     (case checkVersion s of
        (Done _, s1) \<Rightarrow>
          (case setVersion s1 of
             (Done _, s2) \<Rightarrow>
               (case loadTip services finished s2 of
                  (Done _, s3) \<Rightarrow> loadConcurrentTip s3
                | (r, s3) \<Rightarrow> (r, s3))
           | (r, s2) \<Rightarrow> (r, s2))
      | (r, s1) \<Rightarrow> (r, s1))"

section \<open>The transaction record\<close>

text \<open>
  A transaction of the transaction service: the object of the bitcoin library (\<open>tx_body\<close>)
  and the three decorations \<open>__height\<close>, \<open>__timestamp\<close> and \<open>__inputValues\<close>.
  The library is not part of this repository. Its two operations that the record code calls are
  parameters here: \<open>toBuffer\<close> is \<open>transaction.toBuffer()\<close>, and \<open>fromBuffer\<close> is
  \<open>new bitcore.Transaction(buffer)\<close>, which may throw.
\<close>

record 't transaction =
  tx_body :: 't
  tx_height :: int
  tx_timestamp :: double
  tx_inputValues :: "double list"

definition encodeTransactionValue :: "('t \<Rightarrow> buffer) \<Rightarrow> 't transaction \<Rightarrow> error + buffer" where
  "encodeTransactionValue toBuffer tx =
     (case writeUInt32BE (tx_height tx) of
        Inl e \<Rightarrow> Inl e
      | Inr heightBuffer \<Rightarrow>
          (let timestampBuffer = writeDoubleBE (tx_timestamp tx);
               inputValues = tx_inputValues tx;
               inputValuesBuffer = concat (map writeDoubleBE inputValues)
           in case writeUInt16BE (int (length inputValues) * 8) of
                Inl e \<Rightarrow> Inl e
              | Inr inputValuesLengthBuffer \<Rightarrow>
                  Inr (heightBuffer @ timestampBuffer @ inputValuesLengthBuffer @
                       inputValuesBuffer @ toBuffer (tx_body tx))))"

function read_inputValues :: "buffer \<Rightarrow> nat \<Rightarrow> nat \<Rightarrow> double list \<Rightarrow> error + double list" where
  "read_inputValues buf inputValuesLength i inputValues =
     (if i * 8 < inputValuesLength then
        (case readDoubleBE buf (i * 8 + 14) of
           Inl e \<Rightarrow> Inl e
         | Inr d \<Rightarrow> read_inputValues buf inputValuesLength (i + 1) (inputValues @ [d]))
      else Inr inputValues)"
  by pat_completeness auto
termination
  by (relation "measure (\<lambda>(buf, n, i, acc). n - i * 8)") auto

text \<open>
  \<open>buffer.slice(start)\<close> does not throw: a start past the end gives the empty buffer. What the
  library's constructor makes of the slice is the library's business.
\<close>

definition decodeTransactionValue :: "(buffer \<Rightarrow> error + 't) \<Rightarrow> buffer \<Rightarrow> error + 't transaction" where
  "decodeTransactionValue fromBuffer buf =
     (case readUInt32BE buf 0 of
        Inl e \<Rightarrow> Inl e
      | Inr h \<Rightarrow>
          (case readDoubleBE buf 4 of
             Inl e \<Rightarrow> Inl e
           | Inr timestamp \<Rightarrow>
               (case readUInt16BE buf 12 of
                  Inl e \<Rightarrow> Inl e
                | Inr inputValuesLength \<Rightarrow>
                    (case read_inputValues buf (nat inputValuesLength) 0 [] of
                       Inl e \<Rightarrow> Inl e
                     | Inr inputValues \<Rightarrow>
                         (case fromBuffer (drop (length inputValues * 8 + 14) buf) of
                            Inl e \<Rightarrow> Inl e
                          | Inr body \<Rightarrow>
                              Inr \<lparr>tx_body = body, tx_height = h, tx_timestamp = timestamp,
                                   tx_inputValues = inputValues\<rparr>)))))"

section \<open>What the handlers of a service hand back\<close>

definition handler_error ::
  "(service \<Rightarrow> slot) \<Rightarrow> (key \<rightharpoonup> buffer) \<Rightarrow> block \<Rightarrow> bool \<Rightarrow> service \<Rightarrow> error option" where
  "handler_error sel st blk add m =
     (case sel m of
        Function h \<Rightarrow> (case h st blk add of HandlerErr e \<Rightarrow> Some e | _ \<Rightarrow> None)
      | _ \<Rightarrow> None)"

definition handler_ops ::
  "(service \<Rightarrow> slot) \<Rightarrow> (key \<rightharpoonup> buffer) \<Rightarrow> block \<Rightarrow> bool \<Rightarrow> service \<Rightarrow> batch_op list" where
  "handler_ops sel st blk add m =
     (case sel m of
        Function h \<Rightarrow> (case h st blk add of HandlerOps ops \<Rightarrow> ops | _ \<Rightarrow> [])
      | _ \<Rightarrow> [])"

text \<open>A handler respects the plugin contract: it is a function and hands back an array, if anything.\<close>

definition handler_wellformed ::
  "(service \<Rightarrow> slot) \<Rightarrow> (key \<rightharpoonup> buffer) \<Rightarrow> block \<Rightarrow> bool \<Rightarrow> service \<Rightarrow> bool" where
  "handler_wellformed sel st blk add m =
     (case sel m of
        Function h \<Rightarrow> h st blk add \<noteq> HandlerNonArray
      | NotFunction \<Rightarrow> False
      | Missing \<Rightarrow> True)"

section \<open>Concrete inputs\<close>

definition example_block :: block where
  "example_block = \<lparr>hash = toString_hex (replicate 32 0x11), height = 5, prevHash = replicate 32 0x22\<rparr>"

definition example_genesis :: block where
  "example_genesis = \<lparr>hash = toString_hex (replicate 32 0x33), height = 7, prevHash = replicate 32 0x00\<rparr>"

definition example_db :: db where
  "example_db =
     \<lparr>store = Map.empty, faults = (\<lambda>n. None), ops_done = 0, batches = [],
      dataPath = ''/data/bitcore-node.db'', genesis = example_genesis, tip = None,
      concurrentTip = None, bitcoind = (\<lambda>n h. Inl (Error ''block not found'')),
      bitcoind_calls = 0, emitted = []\<rparr>"



definition example_services :: "service list" where
  "example_services =
     [\<lparr>svc_name = ''address'',
       concurrentBlockHandler =
         Function (\<lambda>st blk add. HandlerOps [\<lparr>op_type = Put, op_key = ''ka'', op_value = [1]\<rparr>]),
       blockHandler = Missing\<rparr>,
      \<lparr>svc_name = ''transaction'',
       concurrentBlockHandler = Missing,
       blockHandler =
         Function (\<lambda>st blk add.
           if add then HandlerOps [\<lparr>op_type = Put, op_key = ''kb'', op_value = [2]\<rparr>]
           else HandlerErr (Error ''no timestamp''))\<rparr>]"

definition legacy_db :: db where
  "legacy_db = example_db\<lparr>store := [dbPrefix @ ''tip'' \<mapsto> replicate 32 0x11 @ [0, 0, 0, 5]]\<rparr>"

definition future_db :: db where
  "future_db = example_db\<lparr>store := [dbPrefix @ ''tip'' \<mapsto> replicate 32 0x11 @ [0, 0, 0, 5],
                                       dbPrefix @ ''version'' \<mapsto> [0, 0, 0, 3]]\<rparr>"

section \<open>Runs of the prefix allocator\<close>

text \<open>
  The number that the next new service gets, and a run of \<open>getPrefix\<close> calls, one after the
  other on the same store, whatever the outcome of each call.
\<close>

definition next_value :: "db \<Rightarrow> nat" where
  "next_value s = (case store s nextUnused_key of None \<Rightarrow> 1 | Some b \<Rightarrow> be_value (take 2 b))"

fun getPrefix_all :: "string list \<Rightarrow> db \<Rightarrow> buffer completion list \<times> db" where
  "getPrefix_all [] s = ([], s)"
| "getPrefix_all (service # rest) s =
     (case getPrefix service s of
        (r, s1) \<Rightarrow> (case getPrefix_all rest s1 of (rs, s2) \<Rightarrow> (r # rs, s2)))"

text \<open>
  The allocator's keys are in order: \<open>nextUnused\<close>, when stored, has two bytes; every stored
  prefix has two bytes and is below the value of \<open>nextUnused\<close>; no prefix is stored for two
  services. A store without allocator keys is in order.
\<close>

definition allocator_ok :: "db \<Rightarrow> bool" where
  "allocator_ok s \<longleftrightarrow>
     (\<forall>b. store s nextUnused_key = Some b \<longrightarrow> length b = 2) \<and>
     (\<forall>n b. store s (prefix_key n) = Some b \<longrightarrow> length b = 2 \<and> be_value b < next_value s) \<and>
     (\<forall>n m b. store s (prefix_key n) = Some b \<and> store s (prefix_key m) = Some b \<longrightarrow> n = m)"

text \<open>Names of services, all different, and the state after 65534 of them were given a prefix.\<close>

definition service_name :: "nat \<Rightarrow> string" where
  "service_name n = ''service'' @ replicate n (CHR ''x'')"

definition exhausted_db :: db where
  "exhausted_db = snd (getPrefix_all (map service_name [0..<65534]) example_db)"


definition exhausting_run :: "string list" where
  "exhausting_run =
     map service_name [0..<65534] @ [''address'', ''transaction'', ''address'', ''transaction'']"

text \<open>
  For runs on concrete records, the library's place is taken by the serialisation of a
  transaction without inputs and outputs (the version, a zero count of inputs, a zero count of
  outputs and the lock time, the numbers little-endian in four bytes) and by a parser that
  refuses a buffer that is too short or that announces inputs or outputs, and that does not
  look at what follows the lock time.
\<close>

record bare_tx =
  tx_version :: "32 word"
  tx_nLockTime :: "32 word"

definition bare_toBuffer :: "bare_tx \<Rightarrow> buffer" where
  "bare_toBuffer t =
     rev (be_bytes 4 (unat (tx_version t))) @ [0x00, 0x00] @ rev (be_bytes 4 (unat (tx_nLockTime t)))"

definition bare_fromBuffer :: "buffer \<Rightarrow> error + bare_tx" where
  "bare_fromBuffer buf =
     (if length buf < 10 \<or> take 2 (drop 4 buf) \<noteq> [0x00, 0x00]
      then Inl (Error ''not a transaction without inputs and outputs'')
      else Inr \<lparr>tx_version = of_nat (be_value (rev (take 4 buf))),
                tx_nLockTime = of_nat (be_value (rev (take 4 (drop 6 buf))))\<rparr>)"

definition example_tx :: "bare_tx transaction" where
  "example_tx = \<lparr>tx_body = \<lparr>tx_version = 1, tx_nLockTime = 0\<rparr>, tx_height = 100,
                  tx_timestamp = 0x41D6A0E63B000000,
                  tx_inputValues = [0x4197D78400000000, 0x40C3880000000000]\<rparr>"

definition example_tx_record :: buffer where
  "example_tx_record =
     [0x00, 0x00, 0x00, 0x64,
      0x41, 0xD6, 0xA0, 0xE6, 0x3B, 0x00, 0x00, 0x00,
      0x00, 0x10,
      0x41, 0x97, 0xD7, 0x84, 0x00, 0x00, 0x00, 0x00,
      0x40, 0xC3, 0x88, 0x00, 0x00, 0x00, 0x00, 0x00,
      0x01, 0x00, 0x00, 0x00, 0x00, 0x00, 0x00, 0x00, 0x00, 0x00]"

definition stale_db :: db where
  "stale_db = example_db
     \<lparr>store := [dbPrefix @ ''tip'' \<mapsto> replicate 32 0x11 @ [0, 0, 0, 5],
                 dbPrefix @ ''version'' \<mapsto> [0, 0, 0, 2]],
      bitcoind := (\<lambda>n h. if h = toString_hex (replicate 32 0x11) then Inr example_block
                           else Inl (Error ''block not found''))\<rparr>"

text \<open>A block with a hash of mixed hexadecimal digits, at height 258.\<close>

definition zen_block :: block where
  "zen_block =
     \<lparr>hash = ''0007104ccda289427919efc39dc9e4d499804b7bebc22df55f8b834301260602'',
      height = 258, prevHash = replicate 32 0x00\<rparr>"

text \<open>
  The genesis block as \<open>loadTip\<close> decorates it (\<open>self.tip.__height = 0\<close>), and a service
  whose only handler never hands back an error.
\<close>

definition decorated_genesis :: block where
  "decorated_genesis = example_genesis\<lparr>height := 0\<rparr>"

definition address_service :: service where
  "address_service =
     \<lparr>svc_name = ''address'',
      concurrentBlockHandler =
        Function (\<lambda>st blk add. HandlerOps [\<lparr>op_type = Put, op_key = ''ka'', op_value = [1]\<rparr>]),
      blockHandler = Missing\<rparr>"

section \<open>Properties\<close>

subsection \<open>Buffers\<close>

lemma length_be_bytes: "length (be_bytes n v) = n"
  by (induction n arbitrary: v) simp_all

lemma be_value_snoc: "be_value (bs @ [b]) = be_value bs * 256 + unat b"
  by (simp add: be_value_def)

lemma be_value_be_bytes: "be_value (be_bytes n v) = v mod 256 ^ n"
proof (induction n arbitrary: v)
  case 0
  show ?case by (simp add: be_value_def)
next
  case (Suc n)
  have "be_value (be_bytes (Suc n) v) = (v div 256) mod 256 ^ n * 256 + v mod 256"
    by (simp add: be_value_snoc Suc unat_of_nat)
  also have "\<dots> = v mod 256 ^ Suc n"
    by (simp add: mod_mult2_eq add.commute mult.commute)
  finally show ?case .
qed

lemma be_bytes_2: "be_bytes 2 v = [of_nat (v div 256), of_nat v]"
proof -
  have "be_bytes 2 v = be_bytes (Suc (Suc 0)) v" by (simp only: numeral_2_eq_2)
  also have "\<dots> = [of_nat (v div 256), of_nat v]" by (simp only: be_bytes.simps append.simps)
  finally show ?thesis .
qed

lemma be_bytes_4:
  "be_bytes 4 v = [of_nat (v div 16777216), of_nat (v div 65536), of_nat (v div 256), of_nat v]"
proof -
  have four: "(4::nat) = Suc (Suc (Suc (Suc 0)))" by simp
  have "be_bytes 4 v = be_bytes (Suc (Suc (Suc (Suc 0)))) v" by (simp only: four)
  also have "\<dots> = [of_nat (v div 256 div 256 div 256), of_nat (v div 256 div 256), of_nat (v div 256), of_nat v]"
    by (simp only: be_bytes.simps append.simps)
  finally show ?thesis by (simp add: div_mult2_eq [symmetric])
qed

lemma writeUInt32BE_Inr:
  "0 \<le> v \<Longrightarrow> v < 4294967296 \<Longrightarrow> writeUInt32BE v = Inr (be_bytes 4 (nat v))"
  by (simp add: writeUInt32BE_def)

lemma readUInt32BE_append:
  "length xs = k \<Longrightarrow> readUInt32BE (xs @ be_bytes 4 n @ ys) k = Inr (int (n mod 4294967296))"
  by (simp add: readUInt32BE_def length_be_bytes be_value_be_bytes)

lemma hex_digits_all: "list_all (\<lambda>n. hex_value (hex_digit n) = Some n) [0..<16]"
  by code_simp

lemma hex_value_hex_digit: "n < 16 \<Longrightarrow> hex_value (hex_digit n) = Some n"
  using hex_digits_all by (simp only: list_all_iff set_upt atLeastLessThan_iff) simp

lemma unat_byte_div16: "unat (b :: byte) div 16 < 16"
  using unsigned_less [of b, where ?'a = nat] by simp

lemma Buffer_hex_toString_hex: "Buffer_hex (toString_hex bs) = bs"
  by (induction bs) (simp_all add: toString_hex_def hex_value_hex_digit unat_byte_div16)

lemma hex_chars_all:
  "list_all (\<lambda>c. hex_value c \<noteq> None \<and> the (hex_value c) < 16 \<and> hex_digit (the (hex_value c)) = c)
     ''0123456789abcdef''"
  by code_simp

lemma hex_char:
  assumes "c \<in> set ''0123456789abcdef''"
  obtains n where "hex_value c = Some n" and "n < 16" and "hex_digit n = c"
proof -
  from hex_chars_all assms
  have "hex_value c \<noteq> None \<and> the (hex_value c) < 16 \<and> hex_digit (the (hex_value c)) = c"
    unfolding list_all_iff by (rule bspec)
  then show ?thesis using that by (cases "hex_value c") auto
qed

lemma nibbles_byte:
  assumes "h < 16" and "l < 16"
  shows "unat (of_nat (16 * h + l) :: byte) div 16 = h" "unat (of_nat (16 * h + l) :: byte) mod 16 = l"
proof -
  have "16 * h + l < 256" using assms by simp
  then have "unat (of_nat (16 * h + l) :: byte) = 16 * h + l"
    by (simp only: unat_of_nat) simp
  then show "unat (of_nat (16 * h + l) :: byte) div 16 = h"
    "unat (of_nat (16 * h + l) :: byte) mod 16 = l"
    using assms by simp_all
qed

lemma toString_hex_Cons:
  "toString_hex (b # bs) = hex_digit (unat b div 16) # hex_digit (unat b mod 16) # toString_hex bs"
  by (simp add: toString_hex_def)

lemma toString_hex_Buffer_hex:
  "even (length s) \<Longrightarrow> set s \<subseteq> set ''0123456789abcdef'' \<Longrightarrow>
   toString_hex (Buffer_hex s) = s \<and> 2 * length (Buffer_hex s) = length s"
proof (induction s rule: Buffer_hex.induct)
  case (1 c d cs)
  define H where "H = set ''0123456789abcdef''"
  from "1.prems"(2) have "set (c # d # cs) \<subseteq> H" by (simp only: H_def)
  then have "c \<in> H" "d \<in> H" "set cs \<subseteq> H" by simp_all
  then have c: "c \<in> set ''0123456789abcdef''" and d: "d \<in> set ''0123456789abcdef''"
    and rest: "set cs \<subseteq> set ''0123456789abcdef''"
    by (simp_all only: H_def)
  from c obtain h where h: "hex_value c = Some h" "h < 16" "hex_digit h = c" by (rule hex_char)
  from d obtain l where l: "hex_value d = Some l" "l < 16" "hex_digit l = d" by (rule hex_char)
  have ev: "even (length cs)" using "1.prems"(1) by simp
  have ih: "toString_hex (Buffer_hex cs) = cs \<and> 2 * length (Buffer_hex cs) = length cs"
    using "1.IH" [OF refl h(1) l(1) ev rest] .
  have b: "Buffer_hex (c # d # cs) = of_nat (16 * h + l) # Buffer_hex cs"
    using h l by simp
  show ?case
    unfolding b toString_hex_Cons nibbles_byte [OF h(2) l(2)] using ih h l by simp
next
  case "2_1"
  then show ?case by (simp add: toString_hex_def)
next
  case "2_2"
  then show ?case by simp
qed


lemma hex_digit_in_chars: "n < 16 \<Longrightarrow> hex_digit n \<in> set ''0123456789abcdef''"
  unfolding hex_digit_def by (rule nth_mem) simp

lemma toString_hex_wellformed:
  "length (toString_hex h) = 2 * length h \<and> set (toString_hex h) \<subseteq> set ''0123456789abcdef''"
proof (induction h)
  case Nil
  show ?case by (simp add: toString_hex_def)
next
  case (Cons b bs)
  define H where "H = set ''0123456789abcdef''"
  have "unat b mod 16 < 16" by simp
  from hex_digit_in_chars [OF unat_byte_div16 [of b]] hex_digit_in_chars [OF this] Cons
  have "hex_digit (unat b div 16) \<in> H" "hex_digit (unat b mod 16) \<in> H"
    "set (toString_hex bs) \<subseteq> H" "length (toString_hex bs) = 2 * length bs"
    unfolding H_def by blast+
  then have "length (toString_hex (b # bs)) = 2 * length (b # bs) \<and> set (toString_hex (b # bs)) \<subseteq> H"
    unfolding toString_hex_Cons by simp
  then show ?case unfolding H_def .
qed

lemma zen_block_bytes:
  "Buffer_hex ''0007104ccda289427919efc39dc9e4d499804b7bebc22df55f8b834301260602'' =
     [0x00, 0x07, 0x10, 0x4c, 0xcd, 0xa2, 0x89, 0x42, 0x79, 0x19, 0xef, 0xc3, 0x9d, 0xc9, 0xe4, 0xd4,
      0x99, 0x80, 0x4b, 0x7b, 0xeb, 0xc2, 0x2d, 0xf5, 0x5f, 0x8b, 0x83, 0x43, 0x01, 0x26, 0x06, 0x02]"
  by (simp add: hex_value_def)

subsection \<open>Tip operations\<close>

lemma getConcurrentTipOperation_eq:
  "getConcurrentTipOperation blk add =
   (case getTipOperation blk add of Inl e \<Rightarrow> Inl e
    | Inr t \<Rightarrow> Inr (t\<lparr>op_key := dbPrefix @ ''concurrentTip''\<rparr>))"
  by (simp add: getTipOperation_def getConcurrentTipOperation_def split: sum.splits)

lemma getTipOperation_shape:
  "getTipOperation blk add = Inr t \<Longrightarrow> op_type t = Put \<and> op_key t = dbPrefix @ ''tip''"
  by (cases add) (auto simp: getTipOperation_def split: sum.splits)

lemma getTipOperation_connect:
  "0 \<le> height blk \<Longrightarrow> height blk < 4294967296 \<Longrightarrow>
   getTipOperation blk True =
     Inr \<lparr>op_type = Put, op_key = dbPrefix @ ''tip'',
          op_value = Buffer_hex (hash blk) @ be_bytes 4 (nat (height blk))\<rparr>"
  by (simp add: getTipOperation_def writeUInt32BE_Inr)

lemma getTipOperation_disconnect:
  "1 \<le> height blk \<Longrightarrow> height blk \<le> 4294967296 \<Longrightarrow>
   getTipOperation blk False =
     Inr \<lparr>op_type = Put, op_key = dbPrefix @ ''tip'',
          op_value = rev (prevHash blk) @ be_bytes 4 (nat (height blk - 1))\<rparr>"
  by (simp add: getTipOperation_def writeUInt32BE_Inr)

lemma getTipOperation_disconnect_throws:
  "height blk < 1 \<Longrightarrow> getTipOperation blk False = Inl OutOfBounds"
  by (simp add: getTipOperation_def writeUInt32BE_def)

lemma applyBlock_cases:
  "applyBlock add services finished blk s = (r, s') \<Longrightarrow>
   (s' = s \<and> r \<noteq> Done ()) \<or>
   (\<exists>ops ops' t c e. getConcurrentBlockOperations finished (store s) blk add = Done ops \<and>
        getSerialBlockOperations services (store s) blk add = Done ops' \<and>
        getTipOperation blk add = Inr t \<and> getConcurrentTipOperation blk add = Inr c \<and>
        store_batch ((ops @ ops') @ [t, c]) s = (e, s') \<and>
        r = (case e of Some err \<Rightarrow> Failed err | None \<Rightarrow> Done ()))"
  unfolding applyBlock_def
  by (auto split: completion.splits sum.splits prod.splits option.splits)

text \<open>
  Claim C5, as far as the code goes. For a block whose hash is the hexadecimal form of the bytes
  \<open>h\<close> and whose height is an unsigned 32-bit number, the connect-mode tip operation is a put
  under the tip key of \<open>h\<close> followed by the four big-endian bytes of the height. For a block of
  height at least 1, the disconnect-mode tip operation is a put of the reversed \<open>prevHash\<close> of
  the header followed by the four big-endian bytes of the height minus one.
\<close>

theorem getTipOperation_value:
  "(hash blk = toString_hex h \<and> 0 \<le> height blk \<and> height blk < 4294967296 \<longrightarrow>
      getTipOperation blk True =
        Inr \<lparr>op_type = Put, op_key = dbPrefix @ ''tip'',
             op_value = h @ [of_nat (nat (height blk) div 16777216), of_nat (nat (height blk) div 65536),
                             of_nat (nat (height blk) div 256), of_nat (nat (height blk))]\<rparr>) \<and>
   (1 \<le> height blk \<and> height blk \<le> 4294967296 \<longrightarrow>
      getTipOperation blk False =
        Inr \<lparr>op_type = Put, op_key = dbPrefix @ ''tip'',
             op_value = rev (prevHash blk) @
               [of_nat (nat (height blk - 1) div 16777216), of_nat (nat (height blk - 1) div 65536),
                of_nat (nat (height blk - 1) div 256), of_nat (nat (height blk - 1))]\<rparr>)"
  by (simp add: getTipOperation_connect getTipOperation_disconnect Buffer_hex_toString_hex be_bytes_4)

theorem getTipOperation_value_witness:
  "getTipOperation example_block True =
     Inr \<lparr>op_type = Put, op_key = dbPrefix @ ''tip'', op_value = replicate 32 0x11 @ [0, 0, 0, 5]\<rparr> \<and>
   getTipOperation example_block False =
     Inr \<lparr>op_type = Put, op_key = dbPrefix @ ''tip'', op_value = replicate 32 0x22 @ [0, 0, 0, 4]\<rparr>"
  using getTipOperation_value [of example_block "replicate 32 0x11"]
  by (simp add: example_block_def)

text \<open>
  Claim C5 as stated covers every decorated block. At height 0 (the genesis block) the
  disconnect-mode call writes \<open>-1\<close> as an unsigned 32-bit number, which the platform refuses:
  no operation is returned.
\<close>

theorem getTipOperation_genesis_disconnect:
  "getTipOperation \<lparr>hash = toString_hex (replicate 32 0x33), height = 0, prevHash = replicate 32 0x00\<rparr> False
     = Inl OutOfBounds"
  by (simp add: getTipOperation_def writeUInt32BE_def)

text \<open>
  Claim C6. For every block whose hash is a string of 64 lower-case hexadecimal digits (the
  rendering of a 32-byte hash) and whose height is an unsigned 32-bit number, the value of the
  connect-mode tip operation has 36 bytes, its first 32 bytes are the bytes that the hash string
  denotes, and the two reads of the tip load on that value, \<open>slice(0, 32).toString('hex')\<close> and
  \<open>readUInt32BE(32)\<close>, give back the hash string and the height of the block.
\<close>

theorem tip_record_roundtrip:
  assumes len: "length (hash blk) = 64" and hex: "set (hash blk) \<subseteq> set ''0123456789abcdef''"
    and h0: "0 \<le> height blk" and h1: "height blk < 4294967296"
  shows "\<exists>t. getTipOperation blk True = Inr t \<and> length (op_value t) = 36 \<and>
             take 32 (op_value t) = Buffer_hex (hash blk) \<and>
             tipData_hash (op_value t) = hash blk \<and>
             tipData_height (op_value t) = Inr (height blk)"
proof -
  let ?h = "Buffer_hex (hash blk)"
  let ?v = "?h @ be_bytes 4 (nat (height blk))"
  have "even (length (hash blk))" using len by simp
  from toString_hex_Buffer_hex [OF this hex] len
  have rt: "toString_hex ?h = hash blk" and l32: "length ?h = 32" by simp_all
  have t: "getTipOperation blk True = Inr \<lparr>op_type = Put, op_key = dbPrefix @ ''tip'', op_value = ?v\<rparr>"
    using h0 h1 by (rule getTipOperation_connect)
  have "length ?v = 36" using l32 by (simp add: length_be_bytes)
  moreover have "take 32 ?v = ?h" using l32 by simp
  moreover have "tipData_hash ?v = hash blk"
    using l32 rt by (simp add: tipData_hash_def)
  moreover have "tipData_height ?v = Inr (height blk)"
    using h0 h1 l32 readUInt32BE_append [of ?h 32 "nat (height blk)" "[]"]
    by (simp add: tipData_height_def)
  ultimately show ?thesis using t by simp
qed

theorem tip_record_roundtrip_witness:
  "\<exists>t. getTipOperation zen_block True = Inr t \<and> length (op_value t) = 36 \<and>
       take 32 (op_value t) =
         [0x00, 0x07, 0x10, 0x4c, 0xcd, 0xa2, 0x89, 0x42, 0x79, 0x19, 0xef, 0xc3, 0x9d, 0xc9, 0xe4, 0xd4,
          0x99, 0x80, 0x4b, 0x7b, 0xeb, 0xc2, 0x2d, 0xf5, 0x5f, 0x8b, 0x83, 0x43, 0x01, 0x26, 0x06, 0x02] \<and>
       tipData_hash (op_value t) = ''0007104ccda289427919efc39dc9e4d499804b7bebc22df55f8b834301260602'' \<and>
       tipData_height (op_value t) = Inr 258"
proof -
  have "length (hash zen_block) = 64" "set (hash zen_block) \<subseteq> set ''0123456789abcdef''"
    "0 \<le> height zen_block" "height zen_block < 4294967296"
    by (simp_all add: zen_block_def)
  from tip_record_roundtrip [OF this] obtain t where
    t: "getTipOperation zen_block True = Inr t" "length (op_value t) = 36"
      "take 32 (op_value t) = Buffer_hex (hash zen_block)"
      "tipData_hash (op_value t) = hash zen_block"
      "tipData_height (op_value t) = Inr (height zen_block)"
    by blast
  have "Buffer_hex (hash zen_block) =
     [0x00, 0x07, 0x10, 0x4c, 0xcd, 0xa2, 0x89, 0x42, 0x79, 0x19, 0xef, 0xc3, 0x9d, 0xc9, 0xe4, 0xd4,
      0x99, 0x80, 0x4b, 0x7b, 0xeb, 0xc2, 0x2d, 0xf5, 0x5f, 0x8b, 0x83, 0x43, 0x01, 0x26, 0x06, 0x02]"
    unfolding zen_block_def by (simp only: block.select_convs zen_block_bytes)
  moreover have "hash zen_block = ''0007104ccda289427919efc39dc9e4d499804b7bebc22df55f8b834301260602''"
    "height zen_block = 258"
    by (simp_all add: zen_block_def)
  ultimately show ?thesis using t by (intro exI [of _ t]) (simp del: Buffer_hex.simps)
qed

subsection \<open>The block applier\<close>

lemma collect_operations_ok:
  "\<forall>m\<in>set svcs. handler_error sel st blk add m = None \<and> handler_wellformed sel st blk add m \<Longrightarrow>
   collect_operations sel what svcs st blk add acc =
     Done (acc @ concat (map (handler_ops sel st blk add) svcs))"
proof (induction svcs arbitrary: acc)
  case Nil
  show ?case by simp
next
  case (Cons m rest)
  then show ?case
    by (simp add: handler_error_def handler_wellformed_def handler_ops_def
        split: slot.splits handler_result.splits)
qed

lemma collect_operations_failed:
  "\<forall>m\<in>set svcs. handler_wellformed sel st blk add m \<Longrightarrow>
   \<exists>m\<in>set svcs. handler_error sel st blk add m \<noteq> None \<Longrightarrow>
   \<exists>e. collect_operations sel what svcs st blk add acc = Failed e \<and>
       (\<exists>m\<in>set svcs. handler_error sel st blk add m = Some e)"
proof (induction svcs arbitrary: acc)
  case Nil
  then show ?case by simp
next
  case (Cons m rest)
  show ?case
  proof (cases "handler_error sel st blk add m")
    case (Some e)
    then have "collect_operations sel what (m # rest) st blk add acc = Failed e"
      by (simp add: handler_error_def split: slot.splits handler_result.splits)
    with Some show ?thesis by auto
  next
    case None
    with Cons.prems have rest: "\<forall>m\<in>set rest. handler_wellformed sel st blk add m"
      "\<exists>m\<in>set rest. handler_error sel st blk add m \<noteq> None"
      by auto
    have wf: "handler_wellformed sel st blk add m" using Cons.prems by simp
    have "\<exists>acc'. collect_operations sel what (m # rest) st blk add acc =
            collect_operations sel what rest st blk add acc'"
      using None wf
      by (auto simp: handler_error_def handler_wellformed_def split: slot.splits handler_result.splits)
    then obtain acc' where "collect_operations sel what (m # rest) st blk add acc =
            collect_operations sel what rest st blk add acc'" ..
    with Cons.IH [OF rest, of acc'] show ?thesis by auto
  qed
qed

lemma collect_operations_not_done:
  "\<exists>m\<in>set svcs. handler_error sel st blk add m \<noteq> None \<Longrightarrow>
   collect_operations sel what svcs st blk add acc \<noteq> Done ops"
proof (induction svcs arbitrary: acc)
  case Nil
  then show ?case by simp
next
  case (Cons m rest)
  show ?case
  proof (cases "handler_error sel st blk add m")
    case (Some e)
    then show ?thesis
      by (simp add: handler_error_def split: slot.splits handler_result.splits)
  next
    case None
    with Cons.prems have "\<exists>m\<in>set rest. handler_error sel st blk add m \<noteq> None" by auto
    from Cons.IH [OF this] show ?thesis
      by (simp split: slot.splits handler_result.splits)
  qed
qed


lemma store_batch_result:
  "store_batch operations s =
     (case faults s (ops_done s) of
        Some msg \<Rightarrow> (Some (IOError msg), s\<lparr>ops_done := ops_done s + 1, batches := batches s @ [operations]\<rparr>)
      | None \<Rightarrow> (None, s\<lparr>ops_done := ops_done s + 1, batches := batches s @ [operations],
                         store := foldl apply_op (store s) operations\<rparr>))"
  by (simp add: store_batch_def Let_def split: option.splits)

lemma disconnectBlock_below_one:
  assumes ok: "\<forall>m\<in>set services.
        handler_wellformed concurrentBlockHandler (store s) blk False m \<and>
        handler_wellformed blockHandler (store s) blk False m \<and>
        handler_error concurrentBlockHandler (store s) blk False m = None \<and>
        handler_error blockHandler (store s) blk False m = None"
    and perm: "mset finished = mset services"
    and low: "height blk < 1"
  shows "disconnectBlock services finished blk s = (Thrown OutOfBounds, s)"
proof -
  have sets: "set finished = set services"
    using perm by (rule mset_eq_setD)
  have C: "getConcurrentBlockOperations finished (store s) blk False =
      Done (concat (map (handler_ops concurrentBlockHandler (store s) blk False) finished))"
    unfolding getConcurrentBlockOperations_def
    using ok sets collect_operations_ok [of finished concurrentBlockHandler "store s" blk False _ "[]"]
    by simp
  have S: "getSerialBlockOperations services (store s) blk False =
      Done (concat (map (handler_ops blockHandler (store s) blk False) services))"
    unfolding getSerialBlockOperations_def
    using ok collect_operations_ok [of services blockHandler "store s" blk False _ "[]"]
    by simp
  show ?thesis
    by (simp add: disconnectBlock_def applyBlock_def C S getTipOperation_disconnect_throws [OF low])
qed

text \<open>
  Claim C1, as far as the code goes. Take a block whose tip operations can be built: its height
  is an unsigned 32-bit number when connecting, and between 1 and \<open>2^32\<close> when disconnecting.
  In either direction, when every handler keeps to the plugin contract and none hands back an
  error, exactly one batch is submitted: the operations of the concurrent handlers (in the order
  in which they finished), then those of the serial handlers (in the order of the services), then
  a put of the tip record under the tip key and a put of the same record under the
  concurrent-tip key; the store is that batch applied, or unchanged when the store refuses the
  batch. The tip record is the bytes of the block's hash and its height when connecting, the
  reversed \<open>prevHash\<close> and the height minus one when disconnecting. When some handler hands
  back an error, whatever the block, the state is unchanged (no batch is submitted, the store is
  as before) and the apply fails; it fails with an error handed back by a handler when every
  handler keeps to the contract. In every case the apply either leaves the state as it is and
  fails, or submits one batch, which the store applies as a whole or not at all.
\<close>

theorem applyBlock_atomic:
  assumes run: "(add \<and> connectBlock services finished blk s = (r, s')) \<or>
                (\<not> add \<and> disconnectBlock services finished blk s = (r, s'))"
    and perm: "mset finished = mset services"
    and tipData: "v = (if add then Buffer_hex (hash blk) @ be_bytes 4 (nat (height blk))
                       else rev (prevHash blk) @ be_bytes 4 (nat (height blk - 1)))"
  shows
   "((\<forall>m\<in>set services.
        handler_wellformed concurrentBlockHandler (store s) blk add m \<and>
        handler_wellformed blockHandler (store s) blk add m \<and>
        handler_error concurrentBlockHandler (store s) blk add m = None \<and>
        handler_error blockHandler (store s) blk add m = None) \<and>
     (if add then 0 \<le> height blk \<and> height blk < 4294967296
      else 1 \<le> height blk \<and> height blk \<le> 4294967296) \<longrightarrow>
       batches s' = batches s @
         [concat (map (handler_ops concurrentBlockHandler (store s) blk add) finished) @
          concat (map (handler_ops blockHandler (store s) blk add) services) @
          [\<lparr>op_type = Put, op_key = dbPrefix @ ''tip'', op_value = v\<rparr>,
           \<lparr>op_type = Put, op_key = dbPrefix @ ''concurrentTip'', op_value = v\<rparr>]] \<and>
       (case faults s (ops_done s) of
          None \<Rightarrow> r = Done () \<and> store s' = foldl apply_op (store s) (last (batches s'))
        | Some msg \<Rightarrow> r = Failed (IOError msg) \<and> store s' = store s)) \<and>
    ((\<exists>m\<in>set services.
        handler_error concurrentBlockHandler (store s) blk add m \<noteq> None \<or>
        handler_error blockHandler (store s) blk add m \<noteq> None) \<longrightarrow>
       s' = s \<and> r \<noteq> Done () \<and>
       ((\<forall>m\<in>set services.
           handler_wellformed concurrentBlockHandler (store s) blk add m \<and>
           handler_wellformed blockHandler (store s) blk add m) \<longrightarrow>
        (\<exists>e. r = Failed e \<and>
           (\<exists>m\<in>set services.
              handler_error concurrentBlockHandler (store s) blk add m = Some e \<or>
              handler_error blockHandler (store s) blk add m = Some e)))) \<and>
    ((s' = s \<and> r \<noteq> Done ()) \<or>
     (\<exists>ops. batches s' = batches s @ [ops] \<and>
        (case faults s (ops_done s) of
           None \<Rightarrow> r = Done () \<and> store s' = foldl apply_op (store s) ops
         | Some msg \<Rightarrow> r = Failed (IOError msg) \<and> store s' = store s)))"
proof -
  let ?st = "store s"
  let ?C = "getConcurrentBlockOperations finished ?st blk add"
  let ?S = "getSerialBlockOperations services ?st blk add"
  let ?t = "\<lparr>op_type = Put, op_key = dbPrefix @ ''tip'', op_value = v\<rparr>"
  let ?c = "\<lparr>op_type = Put, op_key = dbPrefix @ ''concurrentTip'', op_value = v\<rparr>"
  have ab: "applyBlock add services finished blk s = (r, s')"
    using run by (auto simp: connectBlock_def disconnectBlock_def)
  have sets: "set finished = set services"
    using perm by (rule mset_eq_setD)
  show ?thesis
  proof (intro conjI impI)
    assume ok: "(\<forall>m\<in>set services.
        handler_wellformed concurrentBlockHandler ?st blk add m \<and>
        handler_wellformed blockHandler ?st blk add m \<and>
        handler_error concurrentBlockHandler ?st blk add m = None \<and>
        handler_error blockHandler ?st blk add m = None) \<and>
     (if add then 0 \<le> height blk \<and> height blk < 4294967296
      else 1 \<le> height blk \<and> height blk \<le> 4294967296)"
    let ?cops = "concat (map (handler_ops concurrentBlockHandler ?st blk add) finished)"
    let ?sops = "concat (map (handler_ops blockHandler ?st blk add) services)"
    have t: "getTipOperation blk add = Inr ?t"
    proof (cases add)
      case True
      with ok have "0 \<le> height blk" "height blk < 4294967296" by simp_all
      from getTipOperation_connect [OF this] True tipData show ?thesis by simp
    next
      case False
      with ok have "1 \<le> height blk" "height blk \<le> 4294967296" by simp_all
      from getTipOperation_disconnect [OF this] False tipData show ?thesis by simp
    qed
    have c: "getConcurrentTipOperation blk add = Inr ?c"
      by (simp add: getConcurrentTipOperation_eq t)
    have C: "?C = Done ?cops"
      unfolding getConcurrentBlockOperations_def
      using ok sets collect_operations_ok [of finished concurrentBlockHandler ?st blk add _ "[]"]
      by simp
    have S: "?S = Done ?sops"
      unfolding getSerialBlockOperations_def
      using ok collect_operations_ok [of services blockHandler ?st blk add _ "[]"]
      by simp
    have "(r, s') = (case store_batch ((?cops @ ?sops) @ [?t, ?c]) s of
                       (Some err, s'') \<Rightarrow> (Failed err, s'')
                     | (None, s'') \<Rightarrow> (Done (), s''))"
      using ab by (simp add: applyBlock_def C S t c)
    then have res: "(r, s') = (case faults s (ops_done s) of
        Some msg \<Rightarrow> (Failed (IOError msg),
                     s\<lparr>ops_done := ops_done s + 1, batches := batches s @ [(?cops @ ?sops) @ [?t, ?c]]\<rparr>)
      | None \<Rightarrow> (Done (), s\<lparr>ops_done := ops_done s + 1, batches := batches s @ [(?cops @ ?sops) @ [?t, ?c]],
                         store := foldl apply_op (store s) ((?cops @ ?sops) @ [?t, ?c])\<rparr>))"
      by (simp add: store_batch_result split: option.splits)
    from res show "batches s' = batches s @ [?cops @ ?sops @ [?t, ?c]]"
      by (cases "faults s (ops_done s)") auto
    from res show "case faults s (ops_done s) of
          None \<Rightarrow> r = Done () \<and> store s' = foldl apply_op (store s) (last (batches s'))
        | Some msg \<Rightarrow> r = Failed (IOError msg) \<and> store s' = store s"
      by (cases "faults s (ops_done s)") auto
  next
    assume err: "\<exists>m\<in>set services.
        handler_error concurrentBlockHandler ?st blk add m \<noteq> None \<or>
        handler_error blockHandler ?st blk add m \<noteq> None"
    then have nd: "(\<forall>ops. ?C \<noteq> Done ops) \<or> (\<forall>ops. ?S \<noteq> Done ops)"
      unfolding getConcurrentBlockOperations_def getSerialBlockOperations_def
      using sets collect_operations_not_done [of finished concurrentBlockHandler ?st blk add]
        collect_operations_not_done [of services blockHandler ?st blk add]
      by blast
    from ab nd show "s' = s"
      by (auto simp: applyBlock_def split: completion.splits)
    from ab nd show "r \<noteq> Done ()"
      by (auto simp: applyBlock_def split: completion.splits)
  next
    assume err: "\<exists>m\<in>set services.
        handler_error concurrentBlockHandler ?st blk add m \<noteq> None \<or>
        handler_error blockHandler ?st blk add m \<noteq> None"
    assume wf: "\<forall>m\<in>set services.
           handler_wellformed concurrentBlockHandler ?st blk add m \<and>
           handler_wellformed blockHandler ?st blk add m"
    show "\<exists>e. r = Failed e \<and>
           (\<exists>m\<in>set services.
              handler_error concurrentBlockHandler ?st blk add m = Some e \<or>
              handler_error blockHandler ?st blk add m = Some e)"
    proof (cases "\<exists>m\<in>set services. handler_error concurrentBlockHandler ?st blk add m \<noteq> None")
      case True
      then obtain e where "?C = Failed e"
        and "\<exists>m\<in>set finished. handler_error concurrentBlockHandler ?st blk add m = Some e"
        unfolding getConcurrentBlockOperations_def
        using wf sets collect_operations_failed [of finished concurrentBlockHandler ?st blk add]
        by blast
      with ab sets show ?thesis
        by (auto simp: applyBlock_def)
    next
      case False
      with err have serr: "\<exists>m\<in>set services. handler_error blockHandler ?st blk add m \<noteq> None"
        by blast
      from False wf sets have C: "?C = Done (concat (map (handler_ops concurrentBlockHandler ?st blk add) finished))"
        unfolding getConcurrentBlockOperations_def
        using collect_operations_ok [of finished concurrentBlockHandler ?st blk add _ "[]"]
        by simp
      from serr obtain e where "?S = Failed e"
        and "\<exists>m\<in>set services. handler_error blockHandler ?st blk add m = Some e"
        unfolding getSerialBlockOperations_def
        using wf collect_operations_failed [of services blockHandler ?st blk add]
        by blast
      with ab C show ?thesis
        by (auto simp: applyBlock_def)
    qed
  next
    from applyBlock_cases [OF ab]
    show "(s' = s \<and> r \<noteq> Done ()) \<or>
     (\<exists>ops. batches s' = batches s @ [ops] \<and>
        (case faults s (ops_done s) of
           None \<Rightarrow> r = Done () \<and> store s' = foldl apply_op (store s) ops
         | Some msg \<Rightarrow> r = Failed (IOError msg) \<and> store s' = store s))"
    proof
      assume "s' = s \<and> r \<noteq> Done ()"
      then show ?thesis ..
    next
      assume "\<exists>ops ops' t c e. getConcurrentBlockOperations finished (store s) blk add = Done ops \<and>
        getSerialBlockOperations services (store s) blk add = Done ops' \<and>
        getTipOperation blk add = Inr t \<and> getConcurrentTipOperation blk add = Inr c \<and>
        store_batch ((ops @ ops') @ [t, c]) s = (e, s') \<and>
        r = (case e of Some err \<Rightarrow> Failed err | None \<Rightarrow> Done ())"
      then obtain ops e where b: "store_batch ops s = (e, s')"
        and r: "r = (case e of Some err \<Rightarrow> Failed err | None \<Rightarrow> Done ())"
        by blast
      have "batches s' = batches s @ [ops] \<and>
        (case faults s (ops_done s) of
           None \<Rightarrow> r = Done () \<and> store s' = foldl apply_op (store s) ops
         | Some msg \<Rightarrow> r = Failed (IOError msg) \<and> store s' = store s)"
        using b r by (cases "faults s (ops_done s)") (auto simp: store_batch_result)
      then show ?thesis by blast
    qed
  qed
qed

lemma batch_op_eq:
  "t = \<lparr>op_type = op_type t, op_key = op_key t, op_value = op_value t\<rparr>"
  by simp

text \<open>
  Claim C10. A batch submitted by \<open>connectBlock\<close> or \<open>disconnectBlock\<close> ends with a put
  under the tip key and a put under the concurrent-tip key of the same value, so that after a
  successful commit the store holds the same record under both keys.
\<close>

theorem tip_and_concurrentTip_agree:
  assumes "connectBlock services finished blk s = (r, s') \<or>
           disconnectBlock services finished blk s = (r, s')"
  shows "(batches s' = batches s \<or>
          (\<exists>ops v. batches s' = batches s @
             [ops @ [\<lparr>op_type = Put, op_key = dbPrefix @ ''tip'', op_value = v\<rparr>,
                     \<lparr>op_type = Put, op_key = dbPrefix @ ''concurrentTip'', op_value = v\<rparr>]])) \<and>
         (r = Done () \<longrightarrow>
            store s' (dbPrefix @ ''tip'') = store s' (dbPrefix @ ''concurrentTip'') \<and>
            store s' (dbPrefix @ ''tip'') \<noteq> None)"
proof -
  from assms obtain add where ab: "applyBlock add services finished blk s = (r, s')"
    by (auto simp: connectBlock_def disconnectBlock_def)
  from applyBlock_cases [OF ab] show ?thesis
  proof
    assume "s' = s \<and> r \<noteq> Done ()"
    then show ?thesis by simp
  next
    assume "\<exists>ops ops' t c e. getConcurrentBlockOperations finished (store s) blk add = Done ops \<and>
        getSerialBlockOperations services (store s) blk add = Done ops' \<and>
        getTipOperation blk add = Inr t \<and> getConcurrentTipOperation blk add = Inr c \<and>
        store_batch ((ops @ ops') @ [t, c]) s = (e, s') \<and>
        r = (case e of Some err \<Rightarrow> Failed err | None \<Rightarrow> Done ())"
    then obtain ops ops' t c e where t: "getTipOperation blk add = Inr t"
      and c: "getConcurrentTipOperation blk add = Inr c"
      and b: "store_batch ((ops @ ops') @ [t, c]) s = (e, s')"
      and r: "r = (case e of Some err \<Rightarrow> Failed err | None \<Rightarrow> Done ())"
      by blast
    have ts: "op_type t = Put" "op_key t = dbPrefix @ ''tip''"
      using getTipOperation_shape [OF t] by simp_all
    have cs: "c = t\<lparr>op_key := dbPrefix @ ''concurrentTip''\<rparr>"
      using c t by (simp add: getConcurrentTipOperation_eq)
    have teq: "t = \<lparr>op_type = Put, op_key = dbPrefix @ ''tip'', op_value = op_value t\<rparr>"
      using ts batch_op_eq [of t] by simp
    have ceq: "c = \<lparr>op_type = Put, op_key = dbPrefix @ ''concurrentTip'', op_value = op_value t\<rparr>"
      using cs teq by (metis batch_op.update_convs(2))
    have log: "batches s' = batches s @ [(ops @ ops') @ [t, c]]"
      using b by (auto simp: store_batch_result split: option.splits)
    have "\<exists>ops v. batches s' = batches s @
             [ops @ [\<lparr>op_type = Put, op_key = dbPrefix @ ''tip'', op_value = v\<rparr>,
                     \<lparr>op_type = Put, op_key = dbPrefix @ ''concurrentTip'', op_value = v\<rparr>]]"
      using log teq ceq by metis
    moreover have "r = Done () \<longrightarrow>
            store s' (dbPrefix @ ''tip'') = store s' (dbPrefix @ ''concurrentTip'') \<and>
            store s' (dbPrefix @ ''tip'') \<noteq> None"
    proof
      assume "r = Done ()"
      with b r have "store s' = foldl apply_op (store s) ((ops @ ops') @ [t, c])"
        by (auto simp: store_batch_result split: option.splits)
      then have "store s' = (foldl apply_op (store s) (ops @ ops'))
          (dbPrefix @ ''tip'' \<mapsto> op_value t, dbPrefix @ ''concurrentTip'' \<mapsto> op_value t)"
        by (subst (asm) teq, subst (asm) ceq) simp
      then show "store s' (dbPrefix @ ''tip'') = store s' (dbPrefix @ ''concurrentTip'') \<and>
            store s' (dbPrefix @ ''tip'') \<noteq> None"
        by simp
    qed
    ultimately show ?thesis by blast
  qed
qed

lemma example_tip_ops:
  "getTipOperation example_block True =
     Inr \<lparr>op_type = Put, op_key = dbPrefix @ ''tip'', op_value = replicate 32 0x11 @ [0, 0, 0, 5]\<rparr>"
  "getConcurrentTipOperation example_block True =
     Inr \<lparr>op_type = Put, op_key = dbPrefix @ ''concurrentTip'', op_value = replicate 32 0x11 @ [0, 0, 0, 5]\<rparr>"
  "getTipOperation example_block False =
     Inr \<lparr>op_type = Put, op_key = dbPrefix @ ''tip'', op_value = replicate 32 0x22 @ [0, 0, 0, 4]\<rparr>"
  "getConcurrentTipOperation example_block False =
     Inr \<lparr>op_type = Put, op_key = dbPrefix @ ''concurrentTip'', op_value = replicate 32 0x22 @ [0, 0, 0, 4]\<rparr>"
  by (simp_all add: getConcurrentTipOperation_eq getTipOperation_connect getTipOperation_disconnect
      Buffer_hex_toString_hex be_bytes_4 example_block_def)

theorem applyBlock_atomic_witness:
  "fst (connectBlock example_services (rev example_services) example_block example_db) = Done () \<and>
   batches (snd (connectBlock example_services (rev example_services) example_block example_db)) =
     [[\<lparr>op_type = Put, op_key = ''ka'', op_value = [1]\<rparr>,
       \<lparr>op_type = Put, op_key = ''kb'', op_value = [2]\<rparr>,
       \<lparr>op_type = Put, op_key = dbPrefix @ ''tip'', op_value = replicate 32 0x11 @ [0, 0, 0, 5]\<rparr>,
       \<lparr>op_type = Put, op_key = dbPrefix @ ''concurrentTip'',
        op_value = replicate 32 0x11 @ [0, 0, 0, 5]\<rparr>]] \<and>
   fst (disconnectBlock [address_service] [address_service] example_block example_db) = Done () \<and>
   batches (snd (disconnectBlock [address_service] [address_service] example_block example_db)) =
     [[\<lparr>op_type = Put, op_key = ''ka'', op_value = [1]\<rparr>,
       \<lparr>op_type = Put, op_key = dbPrefix @ ''tip'', op_value = replicate 32 0x22 @ [0, 0, 0, 4]\<rparr>,
       \<lparr>op_type = Put, op_key = dbPrefix @ ''concurrentTip'',
        op_value = replicate 32 0x22 @ [0, 0, 0, 4]\<rparr>]] \<and>
   disconnectBlock example_services (rev example_services) example_block example_db =
     (Failed (Error ''no timestamp''), example_db)"
proof -
  let ?F = "rev example_services"
  let ?A = "[address_service]"
  let ?c = "connectBlock example_services ?F example_block example_db"
  let ?d = "disconnectBlock example_services ?F example_block example_db"
  let ?q = "disconnectBlock ?A ?A example_block example_db"
  have perm: "mset ?F = mset example_services" by simp
  have st: "store example_db = Map.empty" "faults example_db (ops_done example_db) = None"
    "batches example_db = []"
    by (simp_all add: example_db_def)
  have c: "(True \<and> ?c = (fst ?c, snd ?c)) \<or> (\<not> True \<and> disconnectBlock example_services ?F example_block example_db = (fst ?c, snd ?c))"
    by simp
  have d: "(False \<and> connectBlock example_services ?F example_block example_db = (fst ?d, snd ?d)) \<or>
           (\<not> False \<and> ?d = (fst ?d, snd ?d))"
    by simp
  have q: "(False \<and> connectBlock ?A ?A example_block example_db = (fst ?q, snd ?q)) \<or>
           (\<not> False \<and> ?q = (fst ?q, snd ?q))"
    by simp
  have vc: "replicate 32 0x11 @ [0, 0, 0, 5] =
      (if True then Buffer_hex (hash example_block) @ be_bytes 4 (nat (height example_block))
       else rev (prevHash example_block) @ be_bytes 4 (nat (height example_block - 1)))"
    by (simp add: example_block_def Buffer_hex_toString_hex be_bytes_4)
  have vd: "replicate 32 0x22 @ [0, 0, 0, 4] =
      (if False then Buffer_hex (hash example_block) @ be_bytes 4 (nat (height example_block))
       else rev (prevHash example_block) @ be_bytes 4 (nat (height example_block - 1)))"
    by (simp add: example_block_def be_bytes_4)
  have okc: "(\<forall>m\<in>set example_services.
        handler_wellformed concurrentBlockHandler (store example_db) example_block True m \<and>
        handler_wellformed blockHandler (store example_db) example_block True m \<and>
        handler_error concurrentBlockHandler (store example_db) example_block True m = None \<and>
        handler_error blockHandler (store example_db) example_block True m = None) \<and>
     (if True then 0 \<le> height example_block \<and> height example_block < 4294967296
      else 1 \<le> height example_block \<and> height example_block \<le> 4294967296)"
    by (simp add: example_services_def handler_wellformed_def handler_error_def example_block_def)
  have okq: "(\<forall>m\<in>set ?A.
        handler_wellformed concurrentBlockHandler (store example_db) example_block False m \<and>
        handler_wellformed blockHandler (store example_db) example_block False m \<and>
        handler_error concurrentBlockHandler (store example_db) example_block False m = None \<and>
        handler_error blockHandler (store example_db) example_block False m = None) \<and>
     (if False then 0 \<le> height example_block \<and> height example_block < 4294967296
      else 1 \<le> height example_block \<and> height example_block \<le> 4294967296)"
    by (simp add: address_service_def handler_wellformed_def handler_error_def example_block_def)
  have errd: "\<exists>m\<in>set example_services.
        handler_error concurrentBlockHandler (store example_db) example_block False m \<noteq> None \<or>
        handler_error blockHandler (store example_db) example_block False m \<noteq> None"
    by (simp add: example_services_def handler_error_def)
  have wfd: "\<forall>m\<in>set example_services.
        handler_wellformed concurrentBlockHandler (store example_db) example_block False m \<and>
        handler_wellformed blockHandler (store example_db) example_block False m"
    by (simp add: example_services_def handler_wellformed_def)
  have herr: "\<And>e m. m \<in> set example_services \<Longrightarrow>
       handler_error concurrentBlockHandler (store example_db) example_block False m = Some e \<or>
       handler_error blockHandler (store example_db) example_block False m = Some e \<Longrightarrow>
       e = Error ''no timestamp''"
    by (auto simp: example_services_def handler_error_def)
  have ops: "concat (map (handler_ops concurrentBlockHandler (store example_db) example_block True) ?F) =
       [\<lparr>op_type = Put, op_key = ''ka'', op_value = [1]\<rparr>]"
    "concat (map (handler_ops blockHandler (store example_db) example_block True) example_services) =
       [\<lparr>op_type = Put, op_key = ''kb'', op_value = [2]\<rparr>]"
    by (simp_all add: example_services_def handler_ops_def)
  have opsq: "concat (map (handler_ops concurrentBlockHandler (store example_db) example_block False) ?A) =
       [\<lparr>op_type = Put, op_key = ''ka'', op_value = [1]\<rparr>]"
    "concat (map (handler_ops blockHandler (store example_db) example_block False) ?A) = []"
    by (simp_all add: address_service_def handler_ops_def)
  from applyBlock_atomic [OF c perm vc, THEN conjunct1, rule_format, OF okc]
  have "fst ?c = Done ()" and "batches (snd ?c) = [[\<lparr>op_type = Put, op_key = ''ka'', op_value = [1]\<rparr>,
       \<lparr>op_type = Put, op_key = ''kb'', op_value = [2]\<rparr>,
       \<lparr>op_type = Put, op_key = dbPrefix @ ''tip'', op_value = replicate 32 0x11 @ [0, 0, 0, 5]\<rparr>,
       \<lparr>op_type = Put, op_key = dbPrefix @ ''concurrentTip'',
        op_value = replicate 32 0x11 @ [0, 0, 0, 5]\<rparr>]]"
    unfolding ops by (simp_all add: st)
  moreover
  from applyBlock_atomic [OF q refl vd, THEN conjunct1, rule_format, OF okq]
  have "fst ?q = Done ()" and "batches (snd ?q) = [[\<lparr>op_type = Put, op_key = ''ka'', op_value = [1]\<rparr>,
       \<lparr>op_type = Put, op_key = dbPrefix @ ''tip'', op_value = replicate 32 0x22 @ [0, 0, 0, 4]\<rparr>,
       \<lparr>op_type = Put, op_key = dbPrefix @ ''concurrentTip'',
        op_value = replicate 32 0x22 @ [0, 0, 0, 4]\<rparr>]]"
    unfolding opsq by (simp_all add: st)
  moreover
  from applyBlock_atomic [OF d perm refl, THEN conjunct2, THEN conjunct1, rule_format, OF errd]
  have "snd ?d = example_db" and "\<exists>e. fst ?d = Failed e \<and>
           (\<exists>m\<in>set example_services.
              handler_error concurrentBlockHandler (store example_db) example_block False m = Some e \<or>
              handler_error blockHandler (store example_db) example_block False m = Some e)"
    using wfd by simp_all
  then have "?d = (Failed (Error ''no timestamp''), example_db)"
    using herr by (metis prod.collapse)
  ultimately show ?thesis by simp
qed

text \<open>
  Claim C1 as stated covers every block. Disconnecting the genesis block, which \<open>loadTip\<close>
  decorates with height 0, gathers the operations of the handlers, none of which hands back an
  error, and then throws while the tip operation is built (\<open>-1\<close> is written as an unsigned
  32-bit number): no batch is submitted, and the apply does not end with the error of a handler.
\<close>

theorem disconnectBlock_genesis_throws:
  "getConcurrentBlockOperations [address_service] (store example_db) decorated_genesis False =
     Done [\<lparr>op_type = Put, op_key = ''ka'', op_value = [1]\<rparr>] \<and>
   getSerialBlockOperations [address_service] (store example_db) decorated_genesis False = Done [] \<and>
   disconnectBlock [address_service] [address_service] decorated_genesis example_db =
     (Thrown OutOfBounds, example_db) \<and>
   batches example_db = []"
  by (simp add: disconnectBlock_def applyBlock_def getConcurrentBlockOperations_def
      getSerialBlockOperations_def address_service_def decorated_genesis_def example_genesis_def
      getTipOperation_def writeUInt32BE_def example_db_def)

theorem tip_and_concurrentTip_agree_witness:
  "fst (connectBlock [] [] example_block example_db) = Done () \<and>
   store (snd (connectBlock [] [] example_block example_db)) (dbPrefix @ ''tip'') =
   store (snd (connectBlock [] [] example_block example_db)) (dbPrefix @ ''concurrentTip'') \<and>
   store (snd (connectBlock [] [] example_block example_db)) (dbPrefix @ ''tip'') \<noteq> None"
proof -
  let ?c = "connectBlock [] [] example_block example_db"
  have r: "fst ?c = Done ()"
    by (simp add: connectBlock_def applyBlock_def getConcurrentBlockOperations_def
        getSerialBlockOperations_def example_tip_ops store_batch_result example_db_def)
  have "?c = (fst ?c, snd ?c) \<or> disconnectBlock [] [] example_block example_db = (fst ?c, snd ?c)"
    by simp
  from tip_and_concurrentTip_agree [OF this] r show ?thesis by blast
qed

subsection \<open>The version guard\<close>

lemma store_get_found:
  "faults s (ops_done s) = None \<Longrightarrow> store s k = Some v \<Longrightarrow>
   store_get k s = (Inr v, s\<lparr>ops_done := ops_done s + 1\<rparr>)"
  by (simp add: store_get_def)

lemma store_get_missing:
  "faults s (ops_done s) = None \<Longrightarrow> store s k = None \<Longrightarrow>
   store_get k s = (Inl NotFoundError, s\<lparr>ops_done := ops_done s + 1\<rparr>)"
  by (simp add: store_get_def)

lemma store_put_ok:
  "faults s (ops_done s) = None \<Longrightarrow>
   store_put k v s = (None, s\<lparr>ops_done := ops_done s + 1, store := (store s)(k \<mapsto> v)\<rparr>)"
  by (simp add: store_put_def)

lemma checkVersion_mismatch:
  assumes tip: "store s (dbPrefix @ ''tip'') = Some tipData"
    and f0: "faults s (ops_done s) = None" and f1: "faults s (ops_done s + 1) = None"
    and ver: "case store s (dbPrefix @ ''version'') of
                None \<Rightarrow> stored = 1 | Some buf \<Rightarrow> readUInt32BE buf 0 = Inr stored"
    and ne: "stored \<noteq> 2"
  shows "checkVersion s =
           (Failed (Error (version_message stored (dataPath s))), s\<lparr>ops_done := ops_done s + 2\<rparr>)"
proof -
  let ?s1 = "s\<lparr>ops_done := ops_done s + 1\<rparr>"
  have g1: "store_get (dbPrefix @ ''tip'') s = (Inr tipData, ?s1)"
    using f0 tip by (rule store_get_found)
  have f1': "faults ?s1 (ops_done ?s1) = None" using f1 by simp
  show ?thesis
  proof (cases "store s (dbPrefix @ ''version'')")
    case None
    then have "store_get (dbPrefix @ ''version'') ?s1 = (Inl NotFoundError, ?s1\<lparr>ops_done := ops_done ?s1 + 1\<rparr>)"
      using f1' by (intro store_get_missing) simp_all
    with None ver ne show ?thesis
      by (simp add: checkVersion_def g1 compareVersion_def version_def)
  next
    case (Some buf)
    then have "store_get (dbPrefix @ ''version'') ?s1 = (Inr buf, ?s1\<lparr>ops_done := ops_done ?s1 + 1\<rparr>)"
      using f1' by (intro store_get_found) simp_all
    with Some ver ne show ?thesis
      by (simp add: checkVersion_def g1 compareVersion_def version_def)
  qed
qed

text \<open>
  Claim C3. When the store holds a tip and the stored version (1 when the version key is absent)
  is not the version of the code, starting fails with the message that carries the stored
  version, the expected version 2 and the pointer to the reindex instructions; the two reads are
  the only store operations that have taken place: the store is unchanged and no batch was
  submitted.
\<close>

theorem version_gate:
  assumes "store s (dbPrefix @ ''tip'') = Some tipData"
    and "faults s (ops_done s) = None" and "faults s (ops_done s + 1) = None"
    and "case store s (dbPrefix @ ''version'') of
           None \<Rightarrow> stored = 1 | Some buf \<Rightarrow> readUInt32BE buf 0 = Inr stored"
    and "stored \<noteq> version"
  shows "fst (start services finished s) =
           Failed (Error (''The version of the database '' @ [CHR 0x22] @ show_nat (nat stored) @
             [CHR 0x22] @ '' does not match the expected version '' @ [CHR 0x22] @ ''2'' @ [CHR 0x22] @
             ''. A recreation of '' @ [CHR 0x22] @ dataPath s @ [CHR 0x22] @
             '' (can take several hours) is required or to switch versions of software to match. Please see '' @
             ''https://github.com/bitpay/bitcore-node/blob/master/docs/services/db.md#how-to-reindex'' @
             '' for more information.'')) \<and>
         store (snd (start services finished s)) = store s \<and>
         batches (snd (start services finished s)) = batches s \<and>
         ops_done (snd (start services finished s)) = ops_done s + 2"
proof -
  have "stored \<noteq> 2" using assms(5) by (simp add: version_def)
  from checkVersion_mismatch [OF assms(1-4) this]
  have "start services finished s =
      (Failed (Error (version_message stored (dataPath s))), s\<lparr>ops_done := ops_done s + 2\<rparr>)"
    by (simp add: start_def)
  moreover have "show_nat (nat version) = ''2''"
    by (simp add: version_def hex_digit_def)
  ultimately show ?thesis
    by (simp add: version_message_def helpUrl_def)
qed

theorem version_gate_witness:
  "fst (start example_services example_services legacy_db) =
     Failed (Error (''The version of the database '' @ [CHR 0x22] @ ''1'' @ [CHR 0x22] @
       '' does not match the expected version '' @ [CHR 0x22] @ ''2'' @ [CHR 0x22] @
       ''. A recreation of '' @ [CHR 0x22] @ ''/data/bitcore-node.db'' @ [CHR 0x22] @
       '' (can take several hours) is required or to switch versions of software to match. Please see '' @
       ''https://github.com/bitpay/bitcore-node/blob/master/docs/services/db.md#how-to-reindex'' @
       '' for more information.'')) \<and>
   store (snd (start example_services example_services legacy_db)) = store legacy_db \<and>
   batches (snd (start example_services example_services legacy_db)) = [] \<and>
   fst (start example_services example_services future_db) =
     Failed (Error (''The version of the database '' @ [CHR 0x22] @ ''3'' @ [CHR 0x22] @
       '' does not match the expected version '' @ [CHR 0x22] @ ''2'' @ [CHR 0x22] @
       ''. A recreation of '' @ [CHR 0x22] @ ''/data/bitcore-node.db'' @ [CHR 0x22] @
       '' (can take several hours) is required or to switch versions of software to match. Please see '' @
       ''https://github.com/bitpay/bitcore-node/blob/master/docs/services/db.md#how-to-reindex'' @
       '' for more information.'')) \<and>
   store (snd (start example_services example_services future_db)) = store future_db"
proof -
  have a: "store legacy_db (dbPrefix @ ''tip'') = Some (replicate 32 0x11 @ [0, 0, 0, 5])"
    by (simp add: legacy_db_def)
  have b: "faults legacy_db (ops_done legacy_db) = None" "faults legacy_db (ops_done legacy_db + 1) = None"
    by (simp_all add: legacy_db_def example_db_def)
  have c: "case store legacy_db (dbPrefix @ ''version'') of
           None \<Rightarrow> (1::int) = 1 | Some buf \<Rightarrow> readUInt32BE buf 0 = Inr 1"
    by (simp add: legacy_db_def dbPrefix_def)
  have d: "(1::int) \<noteq> version" by (simp add: version_def)
  have a': "store future_db (dbPrefix @ ''tip'') = Some (replicate 32 0x11 @ [0, 0, 0, 5])"
    by (simp add: future_db_def dbPrefix_def)
  have b': "faults future_db (ops_done future_db) = None" "faults future_db (ops_done future_db + 1) = None"
    by (simp_all add: future_db_def example_db_def)
  have c': "case store future_db (dbPrefix @ ''version'') of
           None \<Rightarrow> (3::int) = 1 | Some buf \<Rightarrow> readUInt32BE buf 0 = Inr 3"
    by (simp add: future_db_def readUInt32BE_def be_value_def)
  have d': "(3::int) \<noteq> version" by (simp add: version_def)
  from version_gate [OF a b c d, of example_services example_services]
  have "fst (start example_services example_services legacy_db) =
     Failed (Error (''The version of the database '' @ [CHR 0x22] @ ''1'' @ [CHR 0x22] @
       '' does not match the expected version '' @ [CHR 0x22] @ ''2'' @ [CHR 0x22] @
       ''. A recreation of '' @ [CHR 0x22] @ ''/data/bitcore-node.db'' @ [CHR 0x22] @
       '' (can take several hours) is required or to switch versions of software to match. Please see '' @
       ''https://github.com/bitpay/bitcore-node/blob/master/docs/services/db.md#how-to-reindex'' @
       '' for more information.'')) \<and>
   store (snd (start example_services example_services legacy_db)) = store legacy_db \<and>
   batches (snd (start example_services example_services legacy_db)) = []"
    by (simp add: legacy_db_def example_db_def hex_digit_def)
  moreover
  from version_gate [OF a' b' c' d', of example_services example_services]
  have "fst (start example_services example_services future_db) =
     Failed (Error (''The version of the database '' @ [CHR 0x22] @ ''3'' @ [CHR 0x22] @
       '' does not match the expected version '' @ [CHR 0x22] @ ''2'' @ [CHR 0x22] @
       ''. A recreation of '' @ [CHR 0x22] @ ''/data/bitcore-node.db'' @ [CHR 0x22] @
       '' (can take several hours) is required or to switch versions of software to match. Please see '' @
       ''https://github.com/bitpay/bitcore-node/blob/master/docs/services/db.md#how-to-reindex'' @
       '' for more information.'')) \<and>
   store (snd (start example_services example_services future_db)) = store future_db"
    by (simp add: future_db_def example_db_def hex_digit_def)
  ultimately show ?thesis by simp
qed


subsection \<open>The prefix allocator\<close>

lemma prefix_key_inj [simp]: "prefix_key a = prefix_key b \<longleftrightarrow> a = b"
  by (simp add: prefix_key_def)

lemma prefix_key_not_nextUnused [simp]: "prefix_key a \<noteq> nextUnused_key"
  "nextUnused_key \<noteq> prefix_key a"
  by (simp_all add: prefix_key_def nextUnused_key_def)

lemma getPrefix_existing:
  "faults s (ops_done s) = None \<Longrightarrow> store s (prefix_key service) = Some v \<Longrightarrow>
   getPrefix service s = (Done v, s\<lparr>ops_done := ops_done s + 1\<rparr>)"
  by (simp add: getPrefix_def store_get_found)

lemma getUnused_value:
  "faults s (ops_done s) = None \<Longrightarrow>
   getUnused s = (Inr (case store s nextUnused_key of None \<Rightarrow> [0x00, 0x01] | Some b \<Rightarrow> b),
                  s\<lparr>ops_done := ops_done s + 1\<rparr>)"
  by (cases "store s nextUnused_key") (simp_all add: getUnused_def store_get_found store_get_missing)

lemma putUnused_ok:
  "faults s (ops_done s) = None \<Longrightarrow> readUInt16BE buf 0 = Inr p \<Longrightarrow> p < 65535 \<Longrightarrow>
   putUnused buf s =
     (Done buf, s\<lparr>ops_done := ops_done s + 1,
                   store := (store s)(nextUnused_key \<mapsto> be_bytes 2 (nat (p + 1)))\<rparr>)"
  by (auto simp: putUnused_def writeUInt16BE_def readUInt16BE_def store_put_ok split: if_splits)

lemma putUnused_overflow:
  "readUInt16BE buf 0 = Inr 65535 \<Longrightarrow> putUnused buf s = (Thrown OutOfBounds, s)"
  by (simp add: putUnused_def writeUInt16BE_def)

lemma getPrefix_fresh:
  assumes nf: "\<forall>n. faults s n = None"
    and none: "store s (prefix_key service) = None"
    and nu: "nu = (case store s nextUnused_key of None \<Rightarrow> [0x00, 0x01] | Some b \<Rightarrow> b)"
    and p: "readUInt16BE nu 0 = Inr p" and lt: "p < 65535"
  shows "getPrefix service s =
     (Done nu, s\<lparr>ops_done := ops_done s + 4,
                  store := (store s)(prefix_key service \<mapsto> nu,
                                     nextUnused_key \<mapsto> be_bytes 2 (nat (p + 1)))\<rparr>)"
proof -
  let ?s1 = "s\<lparr>ops_done := ops_done s + 1\<rparr>"
  let ?s2 = "?s1\<lparr>ops_done := ops_done ?s1 + 1\<rparr>"
  let ?s3 = "?s2\<lparr>ops_done := ops_done ?s2 + 1, store := (store ?s2)(prefix_key service \<mapsto> nu)\<rparr>"
  have g: "store_get (prefix_key service) s = (Inl NotFoundError, ?s1)"
    using nf none by (simp add: store_get_missing)
  have u: "getUnused ?s1 = (Inr nu, ?s2)"
    using nf nu getUnused_value [of ?s1] by simp
  have pp: "putPrefix service nu ?s2 = (Inr nu, ?s3)"
    using nf store_put_ok [of ?s2 "prefix_key service" nu] by (simp add: putPrefix_def)
  have pu: "putUnused nu ?s3 = (Done nu, ?s3\<lparr>ops_done := ops_done ?s3 + 1,
                   store := (store ?s3)(nextUnused_key \<mapsto> be_bytes 2 (nat (p + 1)))\<rparr>)"
    using nf p lt by (intro putUnused_ok) simp_all
  show ?thesis
    by (simp only: getPrefix_def g u pp pu prod.case sum.case simp_thms if_False if_True) simp
qed

lemma getPrefix_overflow:
  assumes nf: "\<forall>n. faults s n = None"
    and none: "store s (prefix_key service) = None"
    and nu: "store s nextUnused_key = Some nu"
    and p: "readUInt16BE nu 0 = Inr 65535"
  shows "getPrefix service s =
     (Thrown OutOfBounds, s\<lparr>ops_done := ops_done s + 3,
                  store := (store s)(prefix_key service \<mapsto> nu)\<rparr>)"
proof -
  let ?s1 = "s\<lparr>ops_done := ops_done s + 1\<rparr>"
  let ?s2 = "?s1\<lparr>ops_done := ops_done ?s1 + 1\<rparr>"
  let ?s3 = "?s2\<lparr>ops_done := ops_done ?s2 + 1, store := (store ?s2)(prefix_key service \<mapsto> nu)\<rparr>"
  have g: "store_get (prefix_key service) s = (Inl NotFoundError, ?s1)"
    using nf none by (simp add: store_get_missing)
  have u: "getUnused ?s1 = (Inr nu, ?s2)"
    using nf nu getUnused_value [of ?s1] by simp
  have pp: "putPrefix service nu ?s2 = (Inr nu, ?s3)"
    using nf store_put_ok [of ?s2 "prefix_key service" nu] by (simp add: putPrefix_def)
  have pu: "putUnused nu ?s3 = (Thrown OutOfBounds, ?s3)"
    using p by (rule putUnused_overflow)
  show ?thesis
    by (simp only: getPrefix_def g u pp pu prod.case sum.case simp_thms if_False if_True) simp
qed

lemma getPrefix_faults: "faults (snd (getPrefix service s)) = faults s"
  by (simp add: getPrefix_def getUnused_def putPrefix_def putUnused_def store_get_def store_put_def
      Let_def split: option.splits sum.splits prod.splits if_splits)

lemma getPrefix_Done_stored:
  "getPrefix service s = (Done v, s') \<Longrightarrow> store s' (prefix_key service) = Some v"
  by (auto simp: getPrefix_def getUnused_def putPrefix_def putUnused_def store_get_def store_put_def
      Let_def split: option.splits sum.splits prod.splits if_splits)

text \<open>
  Claim C4, as far as the code goes. While no store operation fails: when the key
  \<open>prefix-<service>\<close> exists its value is handed back and nothing is written; otherwise, when
  the value of \<open>nextUnused\<close> (0x0001 when the key is absent) is below 0xFFFF, that value is
  written under \<open>prefix-<service>\<close>, \<open>nextUnused\<close> is rewritten as the value plus one and the
  value is handed back; and a call that hands back a value is followed by calls that hand back
  the same value.
\<close>

theorem getPrefix_idempotent:
  assumes nf: "\<forall>n. faults s n = None"
  shows "(\<forall>v. store s (prefix_key service) = Some v \<longrightarrow>
            getPrefix service s = (Done v, s\<lparr>ops_done := ops_done s + 1\<rparr>)) \<and>
         (\<forall>nu p. store s (prefix_key service) = None \<and>
                 nu = (case store s nextUnused_key of None \<Rightarrow> [0x00, 0x01] | Some b \<Rightarrow> b) \<and>
                 readUInt16BE nu 0 = Inr p \<and> p < 65535 \<longrightarrow>
            fst (getPrefix service s) = Done nu \<and>
            store (snd (getPrefix service s)) =
              (store s)(prefix_key service \<mapsto> nu,
                        nextUnused_key \<mapsto> [of_nat (nat (p + 1) div 256), of_nat (nat (p + 1))])) \<and>
         (\<forall>v. fst (getPrefix service s) = Done v \<longrightarrow>
            fst (getPrefix service (snd (getPrefix service s))) = Done v)"
proof (intro conjI allI impI)
  fix v assume "store s (prefix_key service) = Some v"
  with nf show "getPrefix service s = (Done v, s\<lparr>ops_done := ops_done s + 1\<rparr>)"
    by (simp add: getPrefix_existing)
next
  fix nu p
  assume a: "store s (prefix_key service) = None \<and>
                 nu = (case store s nextUnused_key of None \<Rightarrow> [0x00, 0x01] | Some b \<Rightarrow> b) \<and>
                 readUInt16BE nu 0 = Inr p \<and> p < 65535"
  then have a1: "store s (prefix_key service) = None"
    and a2: "nu = (case store s nextUnused_key of None \<Rightarrow> [0x00, 0x01] | Some b \<Rightarrow> b)"
    and a3: "readUInt16BE nu 0 = Inr p" and a4: "p < 65535"
    by blast+
  have g: "getPrefix service s =
     (Done nu, s\<lparr>ops_done := ops_done s + 4,
                  store := (store s)(prefix_key service \<mapsto> nu,
                                     nextUnused_key \<mapsto> be_bytes 2 (nat (p + 1)))\<rparr>)"
    by (rule getPrefix_fresh [OF nf a1 a2 a3 a4])
  show "fst (getPrefix service s) = Done nu" by (simp only: g fst_conv)
  show "store (snd (getPrefix service s)) =
              (store s)(prefix_key service \<mapsto> nu,
                        nextUnused_key \<mapsto> [of_nat (nat (p + 1) div 256), of_nat (nat (p + 1))])"
    by (simp only: g snd_conv be_bytes_2) simp
next
  fix v assume d: "fst (getPrefix service s) = Done v"
  let ?s' = "snd (getPrefix service s)"
  have "getPrefix service s = (Done v, ?s')" using d by (metis prod.collapse)
  then have "store ?s' (prefix_key service) = Some v" by (rule getPrefix_Done_stored)
  moreover have "faults ?s' (ops_done ?s') = None"
    using nf by (simp add: getPrefix_faults)
  ultimately show "fst (getPrefix service ?s') = Done v"
    by (simp add: getPrefix_existing)
qed

lemma example_db_simps:
  "store example_db = Map.empty" "faults example_db = (\<lambda>n. None)"
  by (simp_all add: example_db_def)

lemma readUInt16BE_two: "readUInt16BE [a, b] 0 = Inr (int (unat a * 256 + unat b))"
  by (simp add: readUInt16BE_def be_value_def)

theorem getPrefix_idempotent_witness:
  "fst (getPrefix ''transaction'' example_db) = Done [0x00, 0x01] \<and>
   store (snd (getPrefix ''transaction'' example_db)) =
     [prefix_key ''transaction'' \<mapsto> [0x00, 0x01], nextUnused_key \<mapsto> [0x00, 0x02]] \<and>
   fst (getPrefix ''transaction'' (snd (getPrefix ''transaction'' example_db))) = Done [0x00, 0x01] \<and>
   store (snd (getPrefix ''transaction'' (snd (getPrefix ''transaction'' example_db)))) =
     store (snd (getPrefix ''transaction'' example_db))"
proof -
  have nf: "\<forall>n. faults example_db n = None" by (simp add: example_db_simps)
  have a: "store example_db (prefix_key ''transaction'') = None \<and>
        [0x00, 0x01] = (case store example_db nextUnused_key of None \<Rightarrow> [0x00, 0x01 :: byte] | Some b \<Rightarrow> b) \<and>
        readUInt16BE [0x00, 0x01] 0 = Inr 1 \<and> (1::int) < 65535"
    by (simp add: example_db_simps readUInt16BE_two)
  from getPrefix_idempotent [OF nf, of "''transaction''", THEN conjunct2, THEN conjunct1, rule_format, OF a]
  have 1: "fst (getPrefix ''transaction'' example_db) = Done [0x00, 0x01]"
    and 2: "store (snd (getPrefix ''transaction'' example_db)) =
     [prefix_key ''transaction'' \<mapsto> [0x00, 0x01], nextUnused_key \<mapsto> [0x00, 0x02]]"
    by (simp_all add: example_db_simps)
  from getPrefix_idempotent [OF nf, of "''transaction''", THEN conjunct2, THEN conjunct2, rule_format, OF 1]
  have 3: "fst (getPrefix ''transaction'' (snd (getPrefix ''transaction'' example_db))) = Done [0x00, 0x01]" .
  let ?s1 = "snd (getPrefix ''transaction'' example_db)"
  have nf1: "\<forall>n. faults ?s1 n = None" using nf by (simp add: getPrefix_faults)
  have st1: "store ?s1 (prefix_key ''transaction'') = Some [0x00, 0x01]"
    by (simp only: 2) simp
  from getPrefix_idempotent [OF nf1, of "''transaction''", THEN conjunct1, rule_format, OF st1]
  have 4: "store (snd (getPrefix ''transaction'' ?s1)) = store ?s1" by simp
  from 1 2 3 4 show ?thesis by (intro conjI)
qed

text \<open>
  Claim C9, as far as the code goes. With \<open>nextUnused\<close> at 0xFFFF and no store operation
  failing, \<open>getPrefix\<close> for a service without a prefix stores 0xFFFF under
  \<open>prefix-<service>\<close> and then ends with the exception of the 16-bit write of 0x10000;
  \<open>nextUnused\<close> stays as it is and the callback is not called.
\<close>

theorem getPrefix_exhausted:
  assumes "\<forall>n. faults s n = None"
    and "store s (prefix_key service) = None"
    and "store s nextUnused_key = Some [0xFF, 0xFF]"
  shows "getPrefix service s =
     (Thrown OutOfBounds,
      s\<lparr>ops_done := ops_done s + 3, store := (store s)(prefix_key service \<mapsto> [0xFF, 0xFF])\<rparr>)"
  using assms by (intro getPrefix_overflow) (simp_all add: readUInt16BE_two)

subsection \<open>Runs of the prefix allocator\<close>

lemma getPrefix_Done_cases:
  assumes "getPrefix service s = (Done v, s')"
  shows "(store s (prefix_key service) = Some v \<and> store s' = store s) \<or>
         (store s (prefix_key service) = None \<and>
          v = (case store s nextUnused_key of None \<Rightarrow> [0x00, 0x01] | Some b \<Rightarrow> b) \<and>
          (\<exists>p. readUInt16BE v 0 = Inr p \<and> p < 65535 \<and>
               store s' = (store s)(prefix_key service \<mapsto> v,
                                    nextUnused_key \<mapsto> be_bytes 2 (nat (p + 1)))))"
  using assms
  by (auto simp: getPrefix_def getUnused_def putPrefix_def putUnused_def store_get_def store_put_def
      writeUInt16BE_def Let_def split: option.splits sum.splits prod.splits if_splits)


lemma next_value_store: "store s' = store s \<Longrightarrow> next_value s' = next_value s"
  by (simp add: next_value_def)

lemma allocator_ok_store: "store s' = store s \<Longrightarrow> allocator_ok s' = allocator_ok s"
  by (simp add: allocator_ok_def next_value_def)

lemma be_value_default: "be_value [0x00, 0x01] = 1"
  by (simp add: be_value_def)

lemma allocator_fresh_step:
  assumes ok: "allocator_ok s"
    and none: "store s (prefix_key service) = None"
    and v: "v = (case store s nextUnused_key of None \<Rightarrow> [0x00, 0x01] | Some b \<Rightarrow> b)"
    and p: "readUInt16BE v 0 = Inr p" and lt: "p < 65535"
    and st: "store s' = (store s)(prefix_key service \<mapsto> v,
                                    nextUnused_key \<mapsto> be_bytes 2 (nat (p + 1)))"
  shows "allocator_ok s' \<and> next_value s' = next_value s + 1 \<and> int (next_value s) = p"
proof -
  have len: "length v = 2"
    using ok v by (cases "store s nextUnused_key") (simp_all add: allocator_ok_def)
  have val: "be_value v = next_value s"
    using v len by (cases "store s nextUnused_key") (simp_all add: next_value_def be_value_default)
  have pv: "p = int (be_value v)"
    using p len by (simp add: readUInt16BE_def)
  have q: "nat (p + 1) = next_value s + 1" using pv val by simp
  have small: "next_value s + 1 < 65536" using lt pv val by simp
  have nu': "store s' nextUnused_key = Some (be_bytes 2 (next_value s + 1))"
    using st q by simp
  have nv: "next_value s' = next_value s + 1"
    using small by (simp add: next_value_def nu' length_be_bytes be_value_be_bytes)
  have pk: "\<And>n b. store s' (prefix_key n) = Some b \<Longrightarrow>
                (n = service \<and> b = v) \<or> store s (prefix_key n) = Some b"
    unfolding st by (simp split: if_splits)
  have old: "\<And>n b. store s (prefix_key n) = Some b \<Longrightarrow> length b = 2 \<and> be_value b < next_value s"
    using ok by (simp add: allocator_ok_def)
  have inj: "\<And>n m b. store s (prefix_key n) = Some b \<Longrightarrow> store s (prefix_key m) = Some b \<Longrightarrow> n = m"
    using ok unfolding allocator_ok_def by blast
  have a: "\<forall>b. store s' nextUnused_key = Some b \<longrightarrow> length b = 2"
    by (simp add: nu' length_be_bytes)
  have b: "\<forall>n b. store s' (prefix_key n) = Some b \<longrightarrow> length b = 2 \<and> be_value b < next_value s'"
  proof (intro allI impI)
    fix n b assume "store s' (prefix_key n) = Some b"
    from pk [OF this] show "length b = 2 \<and> be_value b < next_value s'"
    proof
      assume "n = service \<and> b = v"
      then have "b = v" ..
      then show ?thesis unfolding nv using len val by simp
    next
      assume "store s (prefix_key n) = Some b"
      from old [OF this] show ?thesis unfolding nv by simp
    qed
  qed
  have fresh: "\<And>m. store s (prefix_key m) \<noteq> Some v"
  proof
    fix m assume "store s (prefix_key m) = Some v"
    from old [OF this] have "be_value v < next_value s" ..
    then show False unfolding val by simp
  qed
  have c: "\<forall>n m b. store s' (prefix_key n) = Some b \<and> store s' (prefix_key m) = Some b \<longrightarrow> n = m"
  proof (intro allI impI)
    fix n m b assume h: "store s' (prefix_key n) = Some b \<and> store s' (prefix_key m) = Some b"
    then have hn: "(n = service \<and> b = v) \<or> store s (prefix_key n) = Some b"
      and hm: "(m = service \<and> b = v) \<or> store s (prefix_key m) = Some b"
      using pk by blast+
    from hn hm fresh inj show "n = m" by metis
  qed
  have "allocator_ok s'" unfolding allocator_ok_def by (intro conjI a b c)
  with nv pv val show ?thesis by simp
qed

lemma allocator_step:
  assumes ok: "allocator_ok s" and g: "getPrefix service s = (Done v, s')"
  shows "allocator_ok s' \<and> store s' (prefix_key service) = Some v \<and>
         (\<forall>n b. store s (prefix_key n) = Some b \<longrightarrow> store s' (prefix_key n) = Some b) \<and>
         next_value s' \<le> next_value s + 1"
proof -
  have stored: "store s' (prefix_key service) = Some v"
    using g by (rule getPrefix_Done_stored)
  from getPrefix_Done_cases [OF g] show ?thesis
  proof
    assume "store s (prefix_key service) = Some v \<and> store s' = store s"
    then have same: "store s' = store s" ..
    have "allocator_ok s'" using ok allocator_ok_store [OF same] by simp
    moreover have "next_value s' = next_value s" using same by (rule next_value_store)
    ultimately show ?thesis
      using stored same by simp
  next
    assume "store s (prefix_key service) = None \<and>
          v = (case store s nextUnused_key of None \<Rightarrow> [0x00, 0x01] | Some b \<Rightarrow> b) \<and>
          (\<exists>p. readUInt16BE v 0 = Inr p \<and> p < 65535 \<and>
               store s' = (store s)(prefix_key service \<mapsto> v,
                                    nextUnused_key \<mapsto> be_bytes 2 (nat (p + 1))))"
    then obtain p where none: "store s (prefix_key service) = None"
      and v: "v = (case store s nextUnused_key of None \<Rightarrow> [0x00, 0x01] | Some b \<Rightarrow> b)"
      and p: "readUInt16BE v 0 = Inr p" and lt: "p < 65535"
      and st: "store s' = (store s)(prefix_key service \<mapsto> v,
                                    nextUnused_key \<mapsto> be_bytes 2 (nat (p + 1)))"
      by blast
    from allocator_fresh_step [OF ok none v p lt st]
    have "allocator_ok s'" "next_value s' = next_value s + 1" by simp_all
    moreover have "\<forall>n b. store s (prefix_key n) = Some b \<longrightarrow> store s' (prefix_key n) = Some b"
      using st none by auto
    ultimately show ?thesis using stored by simp
  qed
qed

lemma allocator_total:
  assumes ok: "allocator_ok s" and nf: "\<forall>n. faults s n = None" and lt: "next_value s < 65535"
  shows "\<exists>v. fst (getPrefix service s) = Done v"
proof (cases "store s (prefix_key service)")
  case (Some v)
  then show ?thesis using nf by (simp add: getPrefix_existing)
next
  case None
  let ?v = "case store s nextUnused_key of None \<Rightarrow> [0x00, 0x01] | Some b \<Rightarrow> b"
  have len: "length ?v = 2"
    using ok by (cases "store s nextUnused_key") (simp_all add: allocator_ok_def)
  have val: "be_value ?v = next_value s"
    using len by (cases "store s nextUnused_key") (simp_all add: next_value_def be_value_default)
  have p: "readUInt16BE ?v 0 = Inr (int (next_value s))"
    using len val by (simp add: readUInt16BE_def)
  have "int (next_value s) < 65535" using lt by simp
  from getPrefix_fresh [OF nf None refl p this] show ?thesis by simp
qed

lemma getPrefix_all_Cons:
  "getPrefix_all (service # rest) s =
     (fst (getPrefix service s) # fst (getPrefix_all rest (snd (getPrefix service s))),
      snd (getPrefix_all rest (snd (getPrefix service s))))"
  by (simp split: prod.splits)

lemma getPrefix_all_length: "length (fst (getPrefix_all names s)) = length names"
  by (induction names arbitrary: s) (simp_all add: getPrefix_all_Cons del: getPrefix_all.simps(2))

lemma getPrefix_all_faults: "faults (snd (getPrefix_all names s)) = faults s"
  by (induction names arbitrary: s)
    (simp_all add: getPrefix_all_Cons getPrefix_faults del: getPrefix_all.simps(2))

lemma getPrefix_all_append:
  "fst (getPrefix_all (xs @ ys) s) =
     fst (getPrefix_all xs s) @ fst (getPrefix_all ys (snd (getPrefix_all xs s)))"
  by (induction xs arbitrary: s) (simp_all add: getPrefix_all_Cons del: getPrefix_all.simps(2))

lemma getPrefix_all_done:
  assumes "allocator_ok s" and "getPrefix_all names s = (rs, s')"
    and "\<forall>r\<in>set rs. \<exists>p. r = Done p"
  shows "allocator_ok s' \<and> length rs = length names \<and>
         (\<forall>n b. store s (prefix_key n) = Some b \<longrightarrow> store s' (prefix_key n) = Some b) \<and>
         (\<forall>i<length names. \<exists>p. rs ! i = Done p \<and> store s' (prefix_key (names ! i)) = Some p)"
  using assms
proof (induction names arbitrary: s rs)
  case Nil
  then show ?case by simp
next
  case (Cons service rest)
  obtain r s1 where g: "getPrefix service s = (r, s1)" by fastforce
  obtain rs' s2 where ga: "getPrefix_all rest s1 = (rs', s2)" by fastforce
  from Cons.prems(2) g ga have rs: "rs = r # rs'" and s2: "s2 = s'" by simp_all
  from rs Cons.prems(3) obtain p where r: "r = Done p" by auto
  from allocator_step [OF Cons.prems(1) g [unfolded r]]
  have ok1: "allocator_ok s1" and st1: "store s1 (prefix_key service) = Some p"
    and keep1: "\<forall>n b. store s (prefix_key n) = Some b \<longrightarrow> store s1 (prefix_key n) = Some b"
    by blast+
  from rs Cons.prems(3) have all': "\<forall>r\<in>set rs'. \<exists>p. r = Done p" by simp
  from Cons.IH [OF ok1 ga [unfolded s2] all']
  have ok': "allocator_ok s'" and len: "length rs' = length rest"
    and keep2: "\<forall>n b. store s1 (prefix_key n) = Some b \<longrightarrow> store s' (prefix_key n) = Some b"
    and each: "\<forall>i<length rest. \<exists>p. rs' ! i = Done p \<and> store s' (prefix_key (rest ! i)) = Some p"
    by blast+
  have "\<forall>i<length (service # rest). \<exists>p. rs ! i = Done p \<and>
           store s' (prefix_key ((service # rest) ! i)) = Some p"
  proof (intro allI impI)
    fix i assume i: "i < length (service # rest)"
    show "\<exists>p. rs ! i = Done p \<and> store s' (prefix_key ((service # rest) ! i)) = Some p"
    proof (cases i)
      case 0
      then show ?thesis using rs r st1 keep2 by simp
    next
      case (Suc k)
      then show ?thesis using rs each i by simp
    qed
  qed
  moreover have "\<forall>n b. store s (prefix_key n) = Some b \<longrightarrow> store s' (prefix_key n) = Some b"
    using keep1 keep2 by blast
  ultimately show ?case using ok' len rs by simp
qed

lemma getPrefix_all_total:
  assumes "allocator_ok s" and "\<forall>n. faults s n = None"
    and "next_value s + length names \<le> 65535"
  shows "\<forall>r\<in>set (fst (getPrefix_all names s)). \<exists>p. r = Done p"
  using assms
proof (induction names arbitrary: s)
  case Nil
  then show ?case by simp
next
  case (Cons service rest)
  from Cons.prems(3) have lt: "next_value s < 65535" by simp
  from allocator_total [OF Cons.prems(1,2) lt]
  obtain v where v: "fst (getPrefix service s) = Done v" ..
  let ?s1 = "snd (getPrefix service s)"
  have g: "getPrefix service s = (Done v, ?s1)" using v by (metis prod.collapse)
  from allocator_step [OF Cons.prems(1) g]
  have ok1: "allocator_ok ?s1" and nv: "next_value ?s1 \<le> next_value s + 1" by blast+
  have nf1: "\<forall>n. faults ?s1 n = None" using Cons.prems(2) by (simp add: getPrefix_faults)
  have b1: "next_value ?s1 + length rest \<le> 65535" using nv Cons.prems(3) by simp
  from Cons.IH [OF ok1 nf1 b1] show ?case
    using v by (simp add: getPrefix_all_Cons del: getPrefix_all.simps(2))
qed

text \<open>
  Claim C2, as far as the code goes. Take any run of allocator calls from a state whose allocator
  keys are in order. As long as no store operation fails and the value of \<open>nextUnused\<close> plus
  the number of calls does not exceed 0xFFFF, every call hands back a prefix. And when every
  call of the run hands back a prefix, calls for distinct services hand back distinct prefixes,
  calls for the same service hand back the same prefix, every prefix stored before the run is
  still stored for its service, and no call hands a prefix stored before the run to another
  service; the allocator's keys are in order again.
\<close>

theorem prefixes_unique:
  assumes ok: "allocator_ok s" and run: "getPrefix_all names s = (rs, s')"
  shows "((\<forall>n. faults s n = None) \<and> next_value s + length names \<le> 65535 \<longrightarrow>
            (\<forall>r\<in>set rs. \<exists>p. r = Done p)) \<and>
         ((\<forall>r\<in>set rs. \<exists>p. r = Done p) \<longrightarrow>
            allocator_ok s' \<and>
            (\<forall>i<length names. \<forall>j<length names.
               (names ! i \<noteq> names ! j \<longrightarrow> rs ! i \<noteq> rs ! j) \<and>
               (names ! i = names ! j \<longrightarrow> rs ! i = rs ! j)) \<and>
            (\<forall>n p. store s (prefix_key n) = Some p \<longrightarrow> store s' (prefix_key n) = Some p) \<and>
            (\<forall>i<length names. \<forall>n p. store s (prefix_key n) = Some p \<and> n \<noteq> names ! i \<longrightarrow>
               rs ! i \<noteq> Done p))"
proof (intro conjI impI)
  assume "(\<forall>n. faults s n = None) \<and> next_value s + length names \<le> 65535"
  then have "\<forall>r\<in>set (fst (getPrefix_all names s)). \<exists>p. r = Done p"
    using ok by (intro getPrefix_all_total) simp_all
  then show "\<forall>r\<in>set rs. \<exists>p. r = Done p" by (simp add: run)
next
  assume all: "\<forall>r\<in>set rs. \<exists>p. r = Done p"
  from getPrefix_all_done [OF ok run all]
  have ok': "allocator_ok s'"
    and keep: "\<forall>n b. store s (prefix_key n) = Some b \<longrightarrow> store s' (prefix_key n) = Some b"
    and each: "\<forall>i<length names. \<exists>p. rs ! i = Done p \<and> store s' (prefix_key (names ! i)) = Some p"
    by blast+
  have inj: "\<And>n m b. store s' (prefix_key n) = Some b \<Longrightarrow> store s' (prefix_key m) = Some b \<Longrightarrow> n = m"
    using ok' unfolding allocator_ok_def by blast
  show "allocator_ok s'" by (rule ok')
  show "\<forall>n p. store s (prefix_key n) = Some p \<longrightarrow> store s' (prefix_key n) = Some p" by (rule keep)
  show "\<forall>i<length names. \<forall>j<length names.
               (names ! i \<noteq> names ! j \<longrightarrow> rs ! i \<noteq> rs ! j) \<and>
               (names ! i = names ! j \<longrightarrow> rs ! i = rs ! j)"
  proof (intro allI impI)
    fix i j assume i: "i < length names" and j: "j < length names"
    from each i obtain p where p: "rs ! i = Done p" "store s' (prefix_key (names ! i)) = Some p"
      by blast
    from each j obtain q where q: "rs ! j = Done q" "store s' (prefix_key (names ! j)) = Some q"
      by blast
    show "(names ! i \<noteq> names ! j \<longrightarrow> rs ! i \<noteq> rs ! j) \<and> (names ! i = names ! j \<longrightarrow> rs ! i = rs ! j)"
      using p q inj [of "names ! i" p "names ! j"] by auto
  qed
  show "\<forall>i<length names. \<forall>n p. store s (prefix_key n) = Some p \<and> n \<noteq> names ! i \<longrightarrow>
               rs ! i \<noteq> Done p"
  proof (intro allI impI)
    fix i n p assume i: "i < length names"
      and h: "store s (prefix_key n) = Some p \<and> n \<noteq> names ! i"
    from each i obtain q where q: "rs ! i = Done q" "store s' (prefix_key (names ! i)) = Some q"
      by blast
    from h keep have "store s' (prefix_key n) = Some p" by blast
    with q h inj [of n p "names ! i"] show "rs ! i \<noteq> Done p" by auto
  qed
qed

lemma allocator_ok_example_db: "allocator_ok example_db"
  by (simp add: allocator_ok_def example_db_simps)

lemma next_value_example_db: "next_value example_db = 1"
  by (simp add: next_value_def example_db_simps)

theorem prefixes_unique_witness:
  "(\<exists>p. fst (getPrefix_all [''address'', ''transaction'', ''address''] example_db) ! 1 = Done p) \<and>
   fst (getPrefix_all [''address'', ''transaction'', ''address''] example_db) ! 0 \<noteq>
   fst (getPrefix_all [''address'', ''transaction'', ''address''] example_db) ! 1 \<and>
   fst (getPrefix_all [''address'', ''transaction'', ''address''] example_db) ! 0 =
   fst (getPrefix_all [''address'', ''transaction'', ''address''] example_db) ! 2"
proof -
  let ?names = "[''address'', ''transaction'', ''address'']"
  let ?run = "getPrefix_all ?names example_db"
  have run: "?run = (fst ?run, snd ?run)" by simp
  note u = prefixes_unique [OF allocator_ok_example_db run]
  have h: "(\<forall>n. faults example_db n = None) \<and> next_value example_db + length ?names \<le> 65535"
    by (simp add: example_db_simps next_value_example_db)
  from u [THEN conjunct1] h have all: "\<forall>r\<in>set (fst ?run). \<exists>p. r = Done p" by (rule mp)
  from u [THEN conjunct2] all
  have "allocator_ok (snd ?run) \<and>
        (\<forall>i<length ?names. \<forall>j<length ?names.
               (?names ! i \<noteq> ?names ! j \<longrightarrow> fst ?run ! i \<noteq> fst ?run ! j) \<and>
               (?names ! i = ?names ! j \<longrightarrow> fst ?run ! i = fst ?run ! j)) \<and>
        (\<forall>n p. store example_db (prefix_key n) = Some p \<longrightarrow> store (snd ?run) (prefix_key n) = Some p) \<and>
        (\<forall>i<length ?names. \<forall>n p. store example_db (prefix_key n) = Some p \<and> n \<noteq> ?names ! i \<longrightarrow>
               fst ?run ! i \<noteq> Done p)"
    by (rule mp)
  then have uniq: "\<forall>i<length ?names. \<forall>j<length ?names.
               (?names ! i \<noteq> ?names ! j \<longrightarrow> fst ?run ! i \<noteq> fst ?run ! j) \<and>
               (?names ! i = ?names ! j \<longrightarrow> fst ?run ! i = fst ?run ! j)"
    by (elim conjE)
  have 1: "fst ?run ! 0 \<noteq> fst ?run ! 1"
    using uniq [rule_format, of 0 1] by (simp del: getPrefix_all.simps)
  have 2: "fst ?run ! 0 = fst ?run ! 2"
    using uniq [rule_format, of 0 2] by (simp del: getPrefix_all.simps)
  have "fst ?run ! 1 \<in> set (fst ?run)"
    by (rule nth_mem) (simp only: getPrefix_all_length, simp)
  with all have 0: "\<exists>p. fst ?run ! 1 = Done p" by (rule bspec)
  from 0 1 2 show ?thesis by (intro conjI)
qed

lemma getPrefix_all_fresh:
  assumes "allocator_ok s" and "\<forall>n. faults s n = None" and "distinct names"
    and "\<forall>n\<in>set names. store s (prefix_key n) = None"
    and "next_value s + length names \<le> 65535"
  shows "next_value (snd (getPrefix_all names s)) = next_value s + length names \<and>
         allocator_ok (snd (getPrefix_all names s)) \<and>
         (\<forall>m. m \<notin> set names \<longrightarrow>
              store (snd (getPrefix_all names s)) (prefix_key m) = store s (prefix_key m)) \<and>
         (names \<noteq> [] \<longrightarrow>
              store (snd (getPrefix_all names s)) nextUnused_key =
                Some (be_bytes 2 (next_value s + length names)))"
  using assms
proof (induction names arbitrary: s)
  case Nil
  then show ?case by simp
next
  case (Cons service rest)
  let ?v = "case store s nextUnused_key of None \<Rightarrow> [0x00, 0x01] | Some b \<Rightarrow> b"
  let ?s1 = "snd (getPrefix service s)"
  have none: "store s (prefix_key service) = None" using Cons.prems(4) by simp
  have lt: "next_value s < 65535" using Cons.prems(5) by simp
  from allocator_total [OF Cons.prems(1,2) lt]
  obtain v where v: "fst (getPrefix service s) = Done v" ..
  have g: "getPrefix service s = (Done v, ?s1)" using v by (metis prod.collapse)
  from getPrefix_Done_cases [OF g] none
  obtain p where vv: "v = ?v" and p: "readUInt16BE v 0 = Inr p" and plt: "p < 65535"
    and st: "store ?s1 = (store s)(prefix_key service \<mapsto> v,
                                   nextUnused_key \<mapsto> be_bytes 2 (nat (p + 1)))"
    by auto
  from allocator_fresh_step [OF Cons.prems(1) none vv p plt st]
  have ok1: "allocator_ok ?s1" and nv1: "next_value ?s1 = next_value s + 1"
    and pn: "int (next_value s) = p" by simp_all
  have q: "nat (p + 1) = next_value s + 1" using pn by linarith
  have nu1: "store ?s1 nextUnused_key = Some (be_bytes 2 (next_value s + 1))"
    unfolding st q by simp
  have nf1: "\<forall>n. faults ?s1 n = None" using Cons.prems(2) by (simp add: getPrefix_faults)
  have d1: "distinct rest" using Cons.prems(3) by simp
  have other: "\<And>m. m \<noteq> service \<Longrightarrow> store ?s1 (prefix_key m) = store s (prefix_key m)"
    unfolding st by simp
  have none1: "\<forall>n\<in>set rest. store ?s1 (prefix_key n) = None"
    using Cons.prems(3,4) other by (metis distinct.simps(2) list.set_intros(2))
  have b1: "next_value ?s1 + length rest \<le> 65535" using nv1 Cons.prems(5) by simp
  from Cons.IH [OF ok1 nf1 d1 none1 b1]
  have ih: "next_value (snd (getPrefix_all rest ?s1)) = next_value ?s1 + length rest"
    "allocator_ok (snd (getPrefix_all rest ?s1))"
    "\<forall>m. m \<notin> set rest \<longrightarrow>
        store (snd (getPrefix_all rest ?s1)) (prefix_key m) = store ?s1 (prefix_key m)"
    "rest \<noteq> [] \<longrightarrow>
        store (snd (getPrefix_all rest ?s1)) nextUnused_key =
          Some (be_bytes 2 (next_value ?s1 + length rest))"
    by blast+
  have s': "snd (getPrefix_all (service # rest) s) = snd (getPrefix_all rest ?s1)"
    by (simp add: getPrefix_all_Cons del: getPrefix_all.simps(2))
  have "store (snd (getPrefix_all rest ?s1)) nextUnused_key =
          Some (be_bytes 2 (next_value s + length (service # rest)))"
  proof (cases rest)
    case Nil
    then show ?thesis using nu1 by simp
  next
    case (Cons a list)
    then show ?thesis using ih(4) nv1 by simp
  qed
  then show ?case
    unfolding s' using ih(1-3) nv1 other by simp
qed

lemma service_name_inj: "inj service_name"
  by (rule injI) (simp add: service_name_def)

lemma service_name_other:
  "''address'' \<notin> range service_name" "''transaction'' \<notin> range service_name"
  "''timestamp'' \<notin> range service_name"
  by (auto simp: service_name_def)

lemma be_bytes_2_limit: "be_bytes 2 65535 = [0xFF, 0xFF]"
  by (simp add: be_bytes_2)

lemma exhausted_state:
  "store exhausted_db nextUnused_key = Some [0xFF, 0xFF]"
  "store exhausted_db (prefix_key ''address'') = None"
  "store exhausted_db (prefix_key ''transaction'') = None"
  "store exhausted_db (prefix_key ''timestamp'') = None"
  "\<forall>n. faults exhausted_db n = None"
proof -
  let ?names = "map service_name [0..<65534]"
  have d: "distinct ?names"
    by (simp add: distinct_map inj_on_subset [OF service_name_inj])
  have n: "\<forall>n\<in>set ?names. store example_db (prefix_key n) = None"
    by (simp add: example_db_simps)
  have nf: "\<forall>n. faults example_db n = None" by (simp add: example_db_simps)
  have b: "next_value example_db + length ?names \<le> 65535"
    by (simp add: next_value_example_db)
  have ne: "?names \<noteq> []" by simp
  have out: "''address'' \<notin> set ?names" "''transaction'' \<notin> set ?names"
    "''timestamp'' \<notin> set ?names"
    using service_name_other by auto
  note f = getPrefix_all_fresh [OF allocator_ok_example_db nf d n b]
  from f ne
  have "store exhausted_db nextUnused_key =
          Some (be_bytes 2 (next_value example_db + length ?names))"
    unfolding exhausted_db_def by blast
  then show "store exhausted_db nextUnused_key = Some [0xFF, 0xFF]"
    by (simp add: next_value_example_db be_bytes_2_limit)
  from f out show "store exhausted_db (prefix_key ''address'') = None"
    unfolding exhausted_db_def by (simp add: example_db_simps)
  from f out show "store exhausted_db (prefix_key ''transaction'') = None"
    unfolding exhausted_db_def by (simp add: example_db_simps)
  from f out show "store exhausted_db (prefix_key ''timestamp'') = None"
    unfolding exhausted_db_def by (simp add: example_db_simps)
  show "\<forall>n. faults exhausted_db n = None"
    unfolding exhausted_db_def by (simp add: getPrefix_all_faults example_db_simps)
qed

text \<open>
  Claim C4 as stated has no bound. After 65534 services were given prefixes \<open>nextUnused\<close> is
  at 0xFFFF; the call for a new service then writes the prefix and throws on the 16-bit write
  of 0x10000: \<open>nextUnused\<close> is not rewritten and no value is handed back.
\<close>

theorem getPrefix_at_limit:
  "store exhausted_db nextUnused_key = Some [0xFF, 0xFF] \<and>
   fst (getPrefix ''transaction'' exhausted_db) = Thrown OutOfBounds \<and>
   store (snd (getPrefix ''transaction'' exhausted_db)) nextUnused_key = Some [0xFF, 0xFF]"
proof -
  have "getPrefix ''transaction'' exhausted_db =
     (Thrown OutOfBounds, exhausted_db\<lparr>ops_done := ops_done exhausted_db + 3,
         store := (store exhausted_db)(prefix_key ''transaction'' \<mapsto> [0xFF, 0xFF])\<rparr>)"
    by (rule getPrefix_overflow) (simp_all add: exhausted_state readUInt16BE_two)
  then show ?thesis by (simp add: exhausted_state)
qed

theorem getPrefix_exhausted_witness:
  "getPrefix ''timestamp'' exhausted_db =
     (Thrown OutOfBounds,
      exhausted_db\<lparr>ops_done := ops_done exhausted_db + 3,
                   store := (store exhausted_db)(prefix_key ''timestamp'' \<mapsto> [0xFF, 0xFF])\<rparr>)"
proof -
  have "\<forall>n. faults exhausted_db n = None" "store exhausted_db (prefix_key ''timestamp'') = None"
    "store exhausted_db nextUnused_key = Some [0xFF, 0xFF]"
    by (simp_all add: exhausted_state)
  from getPrefix_exhausted [OF this] show ?thesis .
qed

text \<open>
  Claim C9 as stated says that no new assignment takes effect. After 65534 services were given
  prefixes, the store holds the new assignment after the failed call.
\<close>

theorem getPrefix_assigns_before_failing:
  "store exhausted_db (prefix_key ''address'') = None \<and>
   fst (getPrefix ''address'' exhausted_db) = Thrown OutOfBounds \<and>
   store (snd (getPrefix ''address'' exhausted_db)) (prefix_key ''address'') = Some [0xFF, 0xFF]"
proof -
  have "getPrefix ''address'' exhausted_db =
     (Thrown OutOfBounds, exhausted_db\<lparr>ops_done := ops_done exhausted_db + 3,
         store := (store exhausted_db)(prefix_key ''address'' \<mapsto> [0xFF, 0xFF])\<rparr>)"
    by (rule getPrefix_overflow) (simp_all add: exhausted_state readUInt16BE_two)
  then show ?thesis by (simp add: exhausted_state)
qed

text \<open>
  Claim C2 as stated covers every run from every store that the allocator can reach. In the
  run that starts from the empty store and first asks for 65534 distinct services, no store
  operation failing, \<open>nextUnused\<close> reaches 0xFFFF; the calls for two further services each
  store 0xFFFF as the prefix before they throw, and the calls that follow hand 0xFFFF back for
  both services.
\<close>

theorem prefix_handed_out_twice:
  "exhausting_run ! 65536 = ''address'' \<and> exhausting_run ! 65537 = ''transaction'' \<and>
   fst (getPrefix_all exhausting_run example_db) ! 65536 = Done [0xFF, 0xFF] \<and>
   fst (getPrefix_all exhausting_run example_db) ! 65537 = Done [0xFF, 0xFF]"
proof -
  let ?names = "map service_name [0..<65534]"
  let ?tail = "[''address'', ''transaction'', ''address'', ''transaction'']"
  define s0 where "s0 = exhausted_db"
  define s1 where "s1 = snd (getPrefix ''address'' s0)"
  define s2 where "s2 = snd (getPrefix ''transaction'' s1)"
  define s3 where "s3 = snd (getPrefix ''address'' s2)"
  have r: "readUInt16BE [0xFF, 0xFF] 0 = Inr 65535" by (simp add: readUInt16BE_two)
  have s0: "store s0 nextUnused_key = Some [0xFF, 0xFF]" "store s0 (prefix_key ''address'') = None"
    "store s0 (prefix_key ''transaction'') = None" "\<forall>n. faults s0 n = None"
    unfolding s0_def by (rule exhausted_state)+
  have s0': "snd (getPrefix_all ?names example_db) = s0"
    by (simp only: s0_def exhausted_db_def)
  have g1: "getPrefix ''address'' s0 = (Thrown OutOfBounds,
      s0\<lparr>ops_done := ops_done s0 + 3, store := (store s0)(prefix_key ''address'' \<mapsto> [0xFF, 0xFF])\<rparr>)"
    by (rule getPrefix_overflow [OF s0(4) s0(2) s0(1) r])
  have s1: "store s1 nextUnused_key = Some [0xFF, 0xFF]"
    "store s1 (prefix_key ''address'') = Some [0xFF, 0xFF]"
    "store s1 (prefix_key ''transaction'') = None" "\<forall>n. faults s1 n = None"
    unfolding s1_def g1 using s0 by simp_all
  have g2: "getPrefix ''transaction'' s1 = (Thrown OutOfBounds,
      s1\<lparr>ops_done := ops_done s1 + 3, store := (store s1)(prefix_key ''transaction'' \<mapsto> [0xFF, 0xFF])\<rparr>)"
    by (rule getPrefix_overflow [OF s1(4) s1(3) s1(1) r])
  have s2: "store s2 (prefix_key ''address'') = Some [0xFF, 0xFF]"
    "store s2 (prefix_key ''transaction'') = Some [0xFF, 0xFF]" "\<forall>n. faults s2 n = None"
    unfolding s2_def g2 using s1 by simp_all
  have g3: "getPrefix ''address'' s2 = (Done [0xFF, 0xFF], s2\<lparr>ops_done := ops_done s2 + 1\<rparr>)"
    using s2 by (simp add: getPrefix_existing)
  have s3: "store s3 (prefix_key ''transaction'') = Some [0xFF, 0xFF]" "\<forall>n. faults s3 n = None"
    unfolding s3_def g3 using s2 by simp_all
  have g4: "fst (getPrefix ''transaction'' s3) = Done [0xFF, 0xFF]"
    using s3 by (simp add: getPrefix_existing)
  have e: "snd (getPrefix ''address'' s0) = s1" "snd (getPrefix ''transaction'' s1) = s2"
    "snd (getPrefix ''address'' s2) = s3"
    by (simp_all only: s1_def s2_def s3_def)
  have f: "fst (getPrefix ''address'' s0) = Thrown OutOfBounds"
    "fst (getPrefix ''transaction'' s1) = Thrown OutOfBounds"
    "fst (getPrefix ''address'' s2) = Done [0xFF, 0xFF]"
    by (simp_all only: g1 g2 g3 fst_conv)
  have tail: "fst (getPrefix_all ?tail s0) =
      [Thrown OutOfBounds, Thrown OutOfBounds, Done [0xFF, 0xFF], Done [0xFF, 0xFF]]"
    by (simp only: getPrefix_all_Cons getPrefix_all.simps(1) fst_conv snd_conv e f g4)
  have len: "length (fst (getPrefix_all ?names example_db)) = 65534"
    by (simp add: getPrefix_all_length)
  have run: "fst (getPrefix_all exhausting_run example_db) =
      fst (getPrefix_all ?names example_db) @
      [Thrown OutOfBounds, Thrown OutOfBounds, Done [0xFF, 0xFF], Done [0xFF, 0xFF]]"
    unfolding exhausting_run_def getPrefix_all_append s0' tail ..
  have "exhausting_run ! 65536 = ''address''" "exhausting_run ! 65537 = ''transaction''"
    by (simp_all add: exhausting_run_def nth_append)
  moreover have "fst (getPrefix_all exhausting_run example_db) ! 65536 = Done [0xFF, 0xFF]"
    "fst (getPrefix_all exhausting_run example_db) ! 65537 = Done [0xFF, 0xFF]"
    unfolding run by (simp_all add: nth_append len)
  ultimately show ?thesis by (intro conjI)
qed

subsection \<open>The transaction record\<close>

declare read_inputValues.simps [simp del]

lemma length_writeDoubleBE: "length (writeDoubleBE d) = 8"
  by (simp add: writeDoubleBE_def length_be_bytes)

lemma length_concat_doubles: "length (concat (map writeDoubleBE ds)) = 8 * length ds"
  by (induction ds) (simp_all add: length_writeDoubleBE)

lemma readDoubleBE_at:
  "length pre = k \<Longrightarrow> readDoubleBE (pre @ writeDoubleBE d @ post) k = Inr d"
proof -
  assume k: "length pre = k"
  have "unat d < 256 ^ 8"
    using unsigned_less [of d, where ?'a = nat] by simp
  then have "be_value (be_bytes 8 (unat d)) = unat d"
    by (simp add: be_value_be_bytes)
  then show ?thesis
    using k by (simp add: readDoubleBE_def writeDoubleBE_def length_be_bytes)
qed

lemma readUInt16BE_at:
  "length pre = k \<Longrightarrow> n < 65536 \<Longrightarrow> readUInt16BE (pre @ be_bytes 2 n @ post) k = Inr (int n)"
  by (simp add: readUInt16BE_def length_be_bytes be_value_be_bytes)

lemma readUInt32BE_at:
  "length pre = k \<Longrightarrow> n < 4294967296 \<Longrightarrow> readUInt32BE (pre @ be_bytes 4 n @ post) k = Inr (int n)"
  by (simp add: readUInt32BE_def length_be_bytes be_value_be_bytes)

lemma read_inputValues_all:
  assumes "\<forall>j<length ds. readDoubleBE buf (j * 8 + 14) = Inr (ds ! j)"
  shows "i \<le> length ds \<Longrightarrow> read_inputValues buf (8 * length ds) i acc = Inr (acc @ drop i ds)"
proof (induction "length ds - i" arbitrary: i acc)
  case 0
  then have "i = length ds" by simp
  then show ?case by (subst read_inputValues.simps) simp
next
  case (Suc k)
  then have lt: "i < length ds" by simp
  have r: "readDoubleBE buf (i * 8 + 14) = Inr (ds ! i)" using assms lt by simp
  have "read_inputValues buf (8 * length ds) i acc =
        read_inputValues buf (8 * length ds) (i + 1) (acc @ [ds ! i])"
    using lt by (subst read_inputValues.simps) (simp add: r)
  also have "\<dots> = Inr ((acc @ [ds ! i]) @ drop (i + 1) ds)"
    using Suc lt by (intro Suc.hyps(1)) simp_all
  also have "(acc @ [ds ! i]) @ drop (i + 1) ds = acc @ drop i ds"
    using lt by (simp add: Cons_nth_drop_Suc)
  finally show ?case .
qed

lemma concat_doubles_split:
  assumes "j < length ds"
  shows "concat (map writeDoubleBE ds) =
           concat (map writeDoubleBE (take j ds)) @ writeDoubleBE (ds ! j) @
           concat (map writeDoubleBE (drop (Suc j) ds))"
proof -
  have "ds = take j ds @ ds ! j # drop (Suc j) ds"
    using assms by (rule id_take_nth_drop)
  then have "concat (map writeDoubleBE ds) =
      concat (map writeDoubleBE (take j ds @ ds ! j # drop (Suc j) ds))" by simp
  then show ?thesis by simp
qed

lemma be_bytes_8:
  "be_bytes 8 v = [of_nat (v div 72057594037927936), of_nat (v div 281474976710656),
      of_nat (v div 1099511627776), of_nat (v div 4294967296),
      of_nat (v div 16777216), of_nat (v div 65536), of_nat (v div 256), of_nat v]"
proof -
  have eight: "(8::nat) = Suc (Suc (Suc (Suc (Suc (Suc (Suc (Suc 0)))))))" by simp
  have "be_bytes 8 v = be_bytes (Suc (Suc (Suc (Suc (Suc (Suc (Suc (Suc 0)))))))) v"
    by (simp only: eight)
  also have "\<dots> = [of_nat (v div 256 div 256 div 256 div 256 div 256 div 256 div 256),
      of_nat (v div 256 div 256 div 256 div 256 div 256 div 256),
      of_nat (v div 256 div 256 div 256 div 256 div 256),
      of_nat (v div 256 div 256 div 256 div 256),
      of_nat (v div 256 div 256 div 256), of_nat (v div 256 div 256), of_nat (v div 256), of_nat v]"
    by (simp only: be_bytes.simps append.simps)
  finally show ?thesis by (simp add: div_mult2_eq [symmetric])
qed

lemma example_tx_layout:
  "be_bytes 4 (nat (tx_height example_tx)) @ writeDoubleBE (tx_timestamp example_tx) @
   be_bytes 2 (8 * length (tx_inputValues example_tx)) @
   concat (map writeDoubleBE (tx_inputValues example_tx)) @ bare_toBuffer (tx_body example_tx) =
   example_tx_record"
  by (simp add: example_tx_def example_tx_record_def bare_toBuffer_def writeDoubleBE_def
      be_bytes_2 be_bytes_4 be_bytes_8)

lemma example_tx_body:
  "bare_fromBuffer (bare_toBuffer (tx_body example_tx)) = Inr (tx_body example_tx)"
  by (simp add: example_tx_def bare_toBuffer_def bare_fromBuffer_def be_bytes_4 be_value_def)

text \<open>
  Claim C7, as far as the code goes. For every transaction decorated with an unsigned 32-bit
  height, a timestamp and a list of at most 8191 input values, the record is encoded: the height
  in four big-endian bytes, the timestamp in eight, the length of the input values (times eight)
  in two, the input values in eight bytes each, and the serialisation of the transaction.
  Decoding the record hands exactly that serialisation to the library's constructor, neither a
  byte more nor a byte less, and, unless the constructor throws, decorates what the constructor
  builds with the same height, timestamp and input values. So whenever the library builds, from
  the serialisation of a transaction, a transaction with that same serialisation, the decoded
  transaction has the same bytes, height, timestamp and input values as the encoded one.
\<close>

theorem transaction_roundtrip:
  assumes h0: "0 \<le> tx_height tx" and h1: "tx_height tx < 4294967296"
    and n: "length (tx_inputValues tx) \<le> 8191"
  shows "\<exists>buf. encodeTransactionValue toBuffer tx = Inr buf \<and>
           buf = be_bytes 4 (nat (tx_height tx)) @ writeDoubleBE (tx_timestamp tx) @
                 be_bytes 2 (8 * length (tx_inputValues tx)) @
                 concat (map writeDoubleBE (tx_inputValues tx)) @ toBuffer (tx_body tx) \<and>
           decodeTransactionValue fromBuffer buf =
             (case fromBuffer (toBuffer (tx_body tx)) of
                Inl e \<Rightarrow> Inl e
              | Inr body \<Rightarrow>
                  Inr \<lparr>tx_body = body, tx_height = tx_height tx, tx_timestamp = tx_timestamp tx,
                       tx_inputValues = tx_inputValues tx\<rparr>) \<and>
           (\<forall>body. fromBuffer (toBuffer (tx_body tx)) = Inr body \<and>
                   toBuffer body = toBuffer (tx_body tx) \<longrightarrow>
              (\<exists>d. decodeTransactionValue fromBuffer buf = Inr d \<and>
                   toBuffer (tx_body d) = toBuffer (tx_body tx) \<and>
                   tx_height d = tx_height tx \<and> tx_timestamp d = tx_timestamp tx \<and>
                   tx_inputValues d = tx_inputValues tx))"
proof -
  let ?ds = "tx_inputValues tx"
  let ?H = "be_bytes 4 (nat (tx_height tx))"
  let ?T = "writeDoubleBE (tx_timestamp tx)"
  let ?L = "be_bytes 2 (8 * length ?ds)"
  let ?IV = "concat (map writeDoubleBE ?ds)"
  let ?B = "toBuffer (tx_body tx)"
  let ?buf = "?H @ ?T @ ?L @ ?IV @ ?B"
  let ?dec = "case fromBuffer ?B of
                Inl e \<Rightarrow> Inl e
              | Inr body \<Rightarrow>
                  Inr \<lparr>tx_body = body, tx_height = tx_height tx, tx_timestamp = tx_timestamp tx,
                       tx_inputValues = tx_inputValues tx\<rparr>"
  have enc: "encodeTransactionValue toBuffer tx = Inr ?buf"
    using h0 h1 n
    by (simp add: encodeTransactionValue_def writeUInt32BE_def writeUInt16BE_def Let_def
        nat_mult_distrib mult.commute)
  have rh: "readUInt32BE ?buf 0 = Inr (tx_height tx)"
    using readUInt32BE_at [of "[]" 0 "nat (tx_height tx)" "?T @ ?L @ ?IV @ ?B"] h0 h1
    by simp
  have rt: "readDoubleBE ?buf 4 = Inr (tx_timestamp tx)"
    using readDoubleBE_at [of ?H 4 "tx_timestamp tx" "?L @ ?IV @ ?B"]
    by (simp add: length_be_bytes)
  have rl: "readUInt16BE ?buf 12 = Inr (int (8 * length ?ds))"
    using readUInt16BE_at [of "?H @ ?T" 12 "8 * length ?ds" "?IV @ ?B"] n
    by (simp add: length_be_bytes length_writeDoubleBE)
  have each: "\<forall>j<length ?ds. readDoubleBE ?buf (j * 8 + 14) = Inr (?ds ! j)"
  proof (intro allI impI)
    fix j assume j: "j < length ?ds"
    let ?pre = "?H @ ?T @ ?L @ concat (map writeDoubleBE (take j ?ds))"
    let ?post = "concat (map writeDoubleBE (drop (Suc j) ?ds)) @ ?B"
    have "?buf = ?pre @ writeDoubleBE (?ds ! j) @ ?post"
      using concat_doubles_split [OF j] by simp
    moreover have "length ?pre = j * 8 + 14"
      using j by (simp add: length_be_bytes length_writeDoubleBE length_concat_doubles)
    ultimately show "readDoubleBE ?buf (j * 8 + 14) = Inr (?ds ! j)"
      using readDoubleBE_at [of ?pre "j * 8 + 14" "?ds ! j" ?post] by simp
  qed
  have rv: "read_inputValues ?buf (8 * length ?ds) 0 [] = Inr ?ds"
    using read_inputValues_all [OF each, of 0 "[]"] by simp
  have rest: "drop (length ?ds * 8 + 14) ?buf = ?B"
    by (simp add: length_be_bytes length_writeDoubleBE length_concat_doubles)
  have dec: "decodeTransactionValue fromBuffer ?buf = ?dec"
    by (simp only: decodeTransactionValue_def rh rt rl sum.case nat_int rv rest)
  have "\<forall>body. fromBuffer ?B = Inr body \<and> toBuffer body = ?B \<longrightarrow>
          (\<exists>d. decodeTransactionValue fromBuffer ?buf = Inr d \<and>
               toBuffer (tx_body d) = ?B \<and>
               tx_height d = tx_height tx \<and> tx_timestamp d = tx_timestamp tx \<and>
               tx_inputValues d = tx_inputValues tx)"
    unfolding dec by simp
  with enc dec show ?thesis by blast
qed

theorem transaction_roundtrip_witness:
  "encodeTransactionValue bare_toBuffer example_tx = Inr example_tx_record \<and>
   length example_tx_record = 40 \<and>
   bare_toBuffer (tx_body example_tx) = [0x01, 0x00, 0x00, 0x00, 0x00, 0x00, 0x00, 0x00, 0x00, 0x00] \<and>
   decodeTransactionValue bare_fromBuffer example_tx_record = Inr example_tx"
proof -
  have "0 \<le> tx_height example_tx" "tx_height example_tx < 4294967296"
    "length (tx_inputValues example_tx) \<le> 8191"
    by (simp_all add: example_tx_def)
  from transaction_roundtrip [OF this, of bare_toBuffer bare_fromBuffer]
  obtain buf where e: "encodeTransactionValue bare_toBuffer example_tx = Inr buf"
    and l: "buf = be_bytes 4 (nat (tx_height example_tx)) @ writeDoubleBE (tx_timestamp example_tx) @
                 be_bytes 2 (8 * length (tx_inputValues example_tx)) @
                 concat (map writeDoubleBE (tx_inputValues example_tx)) @
                 bare_toBuffer (tx_body example_tx)"
    and d: "decodeTransactionValue bare_fromBuffer buf =
             (case bare_fromBuffer (bare_toBuffer (tx_body example_tx)) of
                Inl e \<Rightarrow> Inl e
              | Inr body \<Rightarrow>
                  Inr \<lparr>tx_body = body, tx_height = tx_height example_tx,
                       tx_timestamp = tx_timestamp example_tx,
                       tx_inputValues = tx_inputValues example_tx\<rparr>)"
    by (elim exE conjE)
  have b: "buf = example_tx_record"
    using l by (simp only: example_tx_layout)
  have "decodeTransactionValue bare_fromBuffer example_tx_record =
           Inr \<lparr>tx_body = tx_body example_tx, tx_height = tx_height example_tx,
                tx_timestamp = tx_timestamp example_tx,
                tx_inputValues = tx_inputValues example_tx\<rparr>"
    using d unfolding b example_tx_body by (simp only: sum.case)
  then have "decodeTransactionValue bare_fromBuffer example_tx_record = Inr example_tx"
    by (simp only: transaction.surjective [of example_tx, symmetric] unit.exhaust) simp
  moreover have "length example_tx_record = 40"
    by (simp add: example_tx_record_def)
  moreover have "bare_toBuffer (tx_body example_tx) =
      [0x01, 0x00, 0x00, 0x00, 0x00, 0x00, 0x00, 0x00, 0x00, 0x00]"
    by (simp add: example_tx_def bare_toBuffer_def be_bytes_4)
  ultimately show ?thesis using e b by simp
qed

text \<open>
  Claim C7 as stated covers every list of input values. The length of the list, times eight,
  is written as an unsigned 16-bit number: with 8192 input values the write throws and there is
  no record to decode.
\<close>

theorem transaction_with_8192_inputs:
  "encodeTransactionValue bare_toBuffer
     \<lparr>tx_body = \<lparr>tx_version = 1, tx_nLockTime = 0\<rparr>, tx_height = 100,
      tx_timestamp = 0x41D6A0E63B000000, tx_inputValues = replicate 8192 0x40C3880000000000\<rparr>
   = Inl OutOfBounds"
  by (simp add: encodeTransactionValue_def writeUInt32BE_def writeUInt16BE_def Let_def)

subsection \<open>Loading the tips\<close>

lemma loadConcurrentTip_absent:
  "faults s (ops_done s) = None \<Longrightarrow> store s (dbPrefix @ ''concurrentTip'') = None \<Longrightarrow>
   loadConcurrentTip s =
     (Pending, s\<lparr>ops_done := ops_done s + 1, genesis := (genesis s)\<lparr>height := 0\<rparr>,
                  concurrentTip := Some ((genesis s)\<lparr>height := 0\<rparr>)\<rparr>)"
  by (simp add: loadConcurrentTip_def store_get_missing Let_def)

lemma loadTip_absent:
  assumes "faults s (ops_done s) = None" and "store s (dbPrefix @ ''tip'') = None"
  shows "loadTip services finished s =
     (case connectBlock services finished ((genesis s)\<lparr>height := 0\<rparr>)
             (s\<lparr>ops_done := ops_done s + 1, genesis := (genesis s)\<lparr>height := 0\<rparr>,
                tip := Some ((genesis s)\<lparr>height := 0\<rparr>)\<rparr>) of
        (Done u, s3) \<Rightarrow> (Done (), s3\<lparr>emitted := emitted s3 @ [(''addblock'', genesis s3)]\<rparr>)
      | (Failed err, s3) \<Rightarrow> (Failed err, s3)
      | (Thrown e, s3) \<Rightarrow> (Thrown e, s3)
      | (Pending, s3) \<Rightarrow> (Pending, s3))"
  using assms by (simp add: loadTip_def store_get_missing Let_def)

lemma tipData_example:
  "tipData_hash (replicate 32 0x11 @ [0, 0, 0, 5]) = toString_hex (replicate 32 0x11)"
  "tipData_height (replicate 32 0x11 @ [0, 0, 0, 5]) = Inr 5"
  by (simp_all add: tipData_hash_def tipData_height_def readUInt32BE_def be_value_def)

lemma genesis_tip_ops:
  "getTipOperation (example_genesis\<lparr>height := 0\<rparr>) True =
     Inr \<lparr>op_type = Put, op_key = dbPrefix @ ''tip'', op_value = replicate 32 0x33 @ [0, 0, 0, 0]\<rparr>"
  "getConcurrentTipOperation (example_genesis\<lparr>height := 0\<rparr>) True =
     Inr \<lparr>op_type = Put, op_key = dbPrefix @ ''concurrentTip'', op_value = replicate 32 0x33 @ [0, 0, 0, 0]\<rparr>"
  by (simp_all add: getConcurrentTipOperation_eq getTipOperation_connect
      Buffer_hex_toString_hex be_bytes_4 example_genesis_def)

lemma example_collect:
  "getConcurrentBlockOperations example_services st blk True =
     Done [\<lparr>op_type = Put, op_key = ''ka'', op_value = [1]\<rparr>]"
  "getSerialBlockOperations example_services st blk True =
     Done [\<lparr>op_type = Put, op_key = ''kb'', op_value = [2]\<rparr>]"
  by (simp_all add: getConcurrentBlockOperations_def getSerialBlockOperations_def example_services_def)

lemma loadTip_fresh: "fst (loadTip example_services example_services example_db) = Done ()"
proof -
  have a: "faults example_db (ops_done example_db) = None"
    "store example_db (dbPrefix @ ''tip'') = None"
    by (simp_all add: example_db_simps)
  have g: "genesis example_db = example_genesis" by (simp add: example_db_def)
  show ?thesis
    unfolding loadTip_absent [OF a] g
    by (simp add: connectBlock_def applyBlock_def example_collect genesis_tip_ops
        store_batch_result example_db_simps)
qed

text \<open>
  With both keys present and holding the same record the two loads do the same: the same
  outcome after the same number of requests to the upstream node, at most three, and the same
  block with the same height.
\<close>

lemma tip_loads_agree_when_present:
  assumes "faults s (ops_done s) = None"
    and "store s (dbPrefix @ ''tip'') = Some tipData"
    and "store s (dbPrefix @ ''concurrentTip'') = Some tipData"
  shows "fst (loadConcurrentTip s) = fst (loadTip services finished s) \<and>
         fst (loadConcurrentTip s) \<noteq> Pending \<and>
         (fst (loadTip services finished s) = Done () \<longrightarrow>
            concurrentTip (snd (loadConcurrentTip s)) = tip (snd (loadTip services finished s))) \<and>
         bitcoind_calls (snd (loadConcurrentTip s)) = bitcoind_calls (snd (loadTip services finished s)) \<and>
         bitcoind_calls (snd (loadConcurrentTip s)) \<le> bitcoind_calls s + 3"
  using assms
  by (simp add: loadConcurrentTip_def loadTip_def store_get_found retry3_def getBlock_def Let_def
      split: sum.splits prod.splits)

text \<open>
  Claim C8 at a store that holds a tip and the current version but no concurrent tip. With
  the tip key absent \<open>loadTip\<close> sets the tip to the genesis block, connects it and calls
  back. With the concurrent-tip key absent \<open>loadConcurrentTip\<close> sets the concurrent tip to
  the genesis block at height 0 and returns without calling back, so that \<open>start\<close> never
  calls back either.
\<close>

theorem loadConcurrentTip_never_calls_back:
  "fst (loadTip example_services example_services example_db) = Done () \<and>
   fst (loadConcurrentTip stale_db) = Pending \<and>
   concurrentTip (snd (loadConcurrentTip stale_db)) = Some (example_genesis\<lparr>height := 0\<rparr>) \<and>
   fst (start example_services example_services stale_db) = Pending"
proof -
  have 1: "fst (loadConcurrentTip stale_db) = Pending"
    "concurrentTip (snd (loadConcurrentTip stale_db)) = Some (example_genesis\<lparr>height := 0\<rparr>)"
    by (simp_all add: loadConcurrentTip_absent stale_db_def example_db_def)
  have cv: "checkVersion stale_db = (Done (), stale_db\<lparr>ops_done := 2\<rparr>)"
    by (simp add: checkVersion_def store_get_def compareVersion_def version_def readUInt32BE_def
        be_value_def stale_db_def example_db_def Let_def)
  let ?s1 = "stale_db\<lparr>ops_done := 2\<rparr>"
  have sv: "setVersion ?s1 = (Done (), ?s1\<lparr>ops_done := 3\<rparr>)"
    by (simp add: setVersion_def writeUInt32BE_def version_def be_bytes_4 store_put_def Let_def
        stale_db_def example_db_def)
  let ?s2 = "?s1\<lparr>ops_done := 3\<rparr>"
  have lt: "loadTip example_services example_services ?s2 =
      (Done (), ?s2\<lparr>ops_done := 4, bitcoind_calls := 1, tip := Some (example_block\<lparr>height := 5\<rparr>)\<rparr>)"
    by (simp add: loadTip_def store_get_def tipData_example retry3_def getBlock_def Let_def
        stale_db_def example_db_def)
  let ?s3 = "?s2\<lparr>ops_done := 4, bitcoind_calls := 1, tip := Some (example_block\<lparr>height := 5\<rparr>)\<rparr>"
  have lc: "fst (loadConcurrentTip ?s3) = Pending"
    by (simp add: loadConcurrentTip_absent stale_db_def example_db_def)
  have "fst (start example_services example_services stale_db) = Pending"
    by (simp only: start_def cv sv lt lc prod.case completion.case)
  with loadTip_fresh 1 show ?thesis by (intro conjI)
qed

end
